theory Spec2Isabelle
  imports Main "HOL-Library.List_Lexorder"
begin

section \<open>UMLS inconsistency checker: a shallow embedding of \<^verbatim>\<open>umls_inconsistency_checker.py\<close>\<close>

subsection \<open>Strings\<close>

text \<open>
  A Python \<^verbatim>\<open>str\<close> is a sequence of Unicode code points. A code point is modelled by
  its number, so that every character the file can hold is covered; \<open>py\<close> turns an
  ASCII literal into such a string. Comparison of strings in Python is lexicographic on the
  code points, which is the order of \<^verbatim>\<open>List_Lexorder\<close> on \<open>nat list\<close>.
\<close>

type_synonym codepoint = nat

type_synonym str = "codepoint list"

definition py :: "string \<Rightarrow> str" where
  "py s = map of_char s"

text \<open>
  \<^verbatim>\<open>str.isspace\<close> for one character, as CPython decides it
  (\<^verbatim>\<open>_PyUnicode_IsWhitespace\<close>): U+0009..U+000D, U+001C..U+0020, U+0085, U+00A0,
  U+1680, U+2000..U+200A, U+2028, U+2029, U+202F, U+205F and U+3000.
\<close>

definition isspace :: "codepoint \<Rightarrow> bool" where
  "isspace c \<longleftrightarrow>
     (9 \<le> c \<and> c \<le> 13) \<or> (28 \<le> c \<and> c \<le> 32) \<or> c = 133 \<or> c = 160 \<or> c = 5760 \<or>
     (8192 \<le> c \<and> c \<le> 8202) \<or> c = 8232 \<or> c = 8233 \<or> c = 8239 \<or> c = 8287 \<or> c = 12288"

text \<open>\<^verbatim>\<open>s.strip()\<close>: leading and trailing whitespace removed.\<close>

definition strip :: "str \<Rightarrow> str" where
  "strip s = rev (dropWhile isspace (rev (dropWhile isspace s)))"

text \<open>
  \<^verbatim>\<open>s.split(sep)\<close> for a separator of one character: every occurrence of the separator
  ends a field, so the result has one field more than the string has separators, and the
  empty string gives one empty field.
\<close>

fun split_str :: "codepoint \<Rightarrow> str \<Rightarrow> str list" where
  "split_str sep [] = [[]]"
| "split_str sep (c # cs) =
     (if c = sep then [] # split_str sep cs
      else (case split_str sep cs of
              [] \<Rightarrow> [[c]]
            | p # ps \<Rightarrow> (c # p) # ps))"

definition bar :: codepoint where
  "bar = 124"

subsection \<open>\<^verbatim>\<open>parse_mrrel\<close>\<close>

text \<open>
  The input resource is either absent (\<^verbatim>\<open>file_path.exists()\<close> is false) or a text
  file, given by its lines in order; a resource that exists is taken to be a file that
  can be read as UTF-8 text, as \<^verbatim>\<open>MRREL.RRF\<close> is. The five results of \<^verbatim>\<open>parse_mrrel\<close> are the fields
  of a record; a Python \<^verbatim>\<open>set\<close> is a HOL set and the \<^verbatim>\<open>Counter\<close> is a map from
  edges to integers, whose domain is the set of its keys. The exceptions of the whole
  program are the values of \<open>error\<close>: the one \<^verbatim>\<open>parse_mrrel\<close> raises itself, those of
  the list and set operations of the traversal, and those of the graph library.
\<close>

datatype resource = Missing | File "str list"

datatype error =
    FileNotFoundError
  | ValueError | KeyError | IndexError
  | NetworkXNoPath | NodeNotFound

type_synonym edge = "str \<times> str"

record parsed =
  parent_child_edges :: "edge set"
  broader_than_edges :: "edge set"
  duplicate_edges :: "edge \<rightharpoonup> int"
  self_loops :: "(str \<times> str) set"
  relationship_types :: "str set"

definition empty_parsed :: parsed where
  "empty_parsed = \<lparr>parent_child_edges = {}, broader_than_edges = {},
     duplicate_edges = Map.empty, self_loops = {}, relationship_types = {}\<rparr>"

text \<open>\<^verbatim>\<open>counter[key] += 1\<close> on a \<^verbatim>\<open>Counter\<close>: a missing key counts as 0.\<close>

definition increment :: "('k \<rightharpoonup> int) \<Rightarrow> 'k \<Rightarrow> ('k \<rightharpoonup> int)" where
  "increment c k = c(k \<mapsto> (case c k of None \<Rightarrow> 0 | Some n \<Rightarrow> n) + 1)"

text \<open>
  Lines 42 to 48 of the source: the fields of a line. \<open>None\<close> is the \<^verbatim>\<open>continue\<close>
  for a line with fewer than five parts.
\<close>

definition line_fields :: "str \<Rightarrow> (str \<times> str \<times> str) option" where
  "line_fields line =
     (let parts = split_str bar (strip line) in
      if length parts < 5 then None
      else Some (strip (parts ! 0), strip (parts ! 3), strip (parts ! 4)))"

text \<open>
  Lines 50 to 71: what the loop body does with the source, the relation and the target.
\<close>

definition classify :: "parsed \<Rightarrow> str \<times> str \<times> str \<Rightarrow> parsed" where
  "classify st rec =
     (case rec of (source, relation, target) \<Rightarrow>
      let st = st\<lparr>relationship_types := insert relation (relationship_types st)\<rparr> in
      if source = target then st\<lparr>self_loops := insert (source, relation) (self_loops st)\<rparr>
      else if relation = py ''CHD'' then
        st\<lparr>parent_child_edges := insert (target, source) (parent_child_edges st),
           duplicate_edges := increment (duplicate_edges st) (target, source)\<rparr>
      else if relation = py ''PAR'' then
        st\<lparr>parent_child_edges := insert (source, target) (parent_child_edges st),
           duplicate_edges := increment (duplicate_edges st) (source, target)\<rparr>
      else if relation = py ''RB'' then
        st\<lparr>broader_than_edges := insert (source, target) (broader_than_edges st),
           duplicate_edges := increment (duplicate_edges st) (source, target)\<rparr>
      else if relation = py ''RN'' then
        st\<lparr>broader_than_edges := insert (target, source) (broader_than_edges st),
           duplicate_edges := increment (duplicate_edges st) (target, source)\<rparr>
      else st)"

definition parse_line :: "parsed \<Rightarrow> str \<Rightarrow> parsed" where
  "parse_line st line = (case line_fields line of None \<Rightarrow> st | Some rec \<Rightarrow> classify st rec)"

definition parse_mrrel :: "resource \<Rightarrow> error + parsed" where
  "parse_mrrel r =
     (case r of
        Missing \<Rightarrow> Inl FileNotFoundError
      | File lines \<Rightarrow> Inr (foldl parse_line empty_parsed lines))"

subsection \<open>\<^verbatim>\<open>detect_cycles\<close>\<close>

text \<open>
  The graph is the \<^verbatim>\<open>defaultdict(list)\<close> that \<^verbatim>\<open>main\<close> builds: its keys in
  insertion order, each with its list of successors. \<^verbatim>\<open>graph[node]\<close> on a missing key
  gives the empty list; the key it inserts is read by nobody, since the roots are taken
  from \<^verbatim>\<open>list(graph)\<close> before the traversal starts.

  The closure variables \<^verbatim>\<open>visited\<close>, \<^verbatim>\<open>rec_stack\<close>, \<^verbatim>\<open>all_cycles\<close> and
  \<^verbatim>\<open>unique_cycles\<close> and the list \<^verbatim>\<open>path\<close>, which every call of \<^verbatim>\<open>dfs\<close> shares and
  mutates, are the fields of the state. \<^verbatim>\<open>path.index\<close>, \<^verbatim>\<open>path.pop\<close> and
  \<^verbatim>\<open>rec_stack.remove\<close> raise when the element is missing; these are branches of the
  model. \<^verbatim>\<open>sorted\<close> on strings is \<open>sort\<close> in the lexicographic order. The recursion
  limit of the interpreter is not modelled.
\<close>

type_synonym 'a graph = "('a \<times> 'a list) list"

record 'a dfs_state =
  visited :: "'a set"
  rec_stack :: "'a set"
  all_cycles :: "'a list list"
  unique_cycles :: "'a list set"
  path :: "'a list"

text \<open>\<^verbatim>\<open>graph[node]\<close> on the \<^verbatim>\<open>defaultdict\<close>, and \<^verbatim>\<open>path.index(node)\<close>.\<close>

definition getitem :: "'a graph \<Rightarrow> 'a \<Rightarrow> 'a list" where
  "getitem g node = (case map_of g node of None \<Rightarrow> [] | Some ns \<Rightarrow> ns)"

fun index_of :: "'a \<Rightarrow> 'a list \<Rightarrow> nat option" where
  "index_of x [] = None"
| "index_of x (y # ys) = (if x = y then Some 0 else map_option Suc (index_of x ys))"

text \<open>The nodes of a graph (used as the measure of termination), and the three updates on entering a node.\<close>

definition nodes :: "'a graph \<Rightarrow> 'a set" where
  "nodes g = set (map fst g) \<union> (\<Union>ns \<in> set (map snd g). set ns)"

definition enter :: "'a \<Rightarrow> 'a dfs_state \<Rightarrow> 'a dfs_state" where
  "enter node st = st\<lparr>visited := insert node (visited st),
     rec_stack := insert node (rec_stack st), path := path st @ [node]\<rparr>"

text \<open>
  \<^verbatim>\<open>dfs(node, path)\<close> and its loop over \<^verbatim>\<open>graph[node]\<close>. The recursion ends because
  every call that goes on marks a node of the graph as visited.
\<close>

function dfs :: "('a::linorder) graph \<Rightarrow> 'a \<Rightarrow> 'a dfs_state \<Rightarrow> error + 'a dfs_state"
  and dfs_for :: "('a::linorder) graph \<Rightarrow> 'a list \<Rightarrow> 'a dfs_state \<Rightarrow> error + 'a dfs_state"
  where
  "dfs g node st =
     (if node \<in> rec_stack st then
        (case index_of node (path st) of
           None \<Rightarrow> Inl ValueError
         | Some cycle_start \<Rightarrow>
             let cycle = drop cycle_start (path st); normalized = sort cycle in
             if normalized \<notin> unique_cycles st
             then Inr (st\<lparr>unique_cycles := insert normalized (unique_cycles st),
                           all_cycles := all_cycles st @ [cycle]\<rparr>)
             else Inr st)
      else if node \<in> visited st then Inr st
      else
        (case dfs_for g (getitem g node) (enter node st) of
           Inl e \<Rightarrow> Inl e
         | Inr st' \<Rightarrow>
             if path st' = [] then Inl IndexError
             else if node \<notin> rec_stack st' then Inl KeyError
             else Inr (st'\<lparr>path := butlast (path st'), rec_stack := rec_stack st' - {node}\<rparr>)))"
| "dfs_for g [] st = Inr st"
| "dfs_for g (neighbor # rest) st =
     (case dfs g neighbor st of
        Inl e \<Rightarrow> Inl e
      | Inr st' \<Rightarrow> dfs_for g rest st')"
  by pat_completeness auto

termination
proof -
  have mono:
    "dfs_dfs_for_dom (Inl (g, node, st)) \<Longrightarrow> dfs g node st = Inr st' \<Longrightarrow> visited st \<subseteq> visited st'"
    "dfs_dfs_for_dom (Inr (g, ns, st)) \<Longrightarrow> dfs_for g ns st = Inr st' \<Longrightarrow> visited st \<subseteq> visited st'"
    for g :: "'a graph" and node ns st st'
  proof (induction g node st and g ns st arbitrary: st' and st' rule: dfs_dfs_for.pinduct)
    case (1 g node st)
    show ?case
    proof (cases "node \<in> rec_stack st \<or> node \<in> visited st")
      case True
      with "1.prems" "1.hyps" show ?thesis
        by (auto simp add: dfs.psimps Let_def split: option.splits if_splits)
    next
      case False
      with "1.prems" "1.hyps" obtain st1 where
        a: "dfs_for g (getitem g node) (enter node st) = Inr st1"
        and b: "st' = st1\<lparr>path := butlast (path st1), rec_stack := rec_stack st1 - {node}\<rparr>"
        by (auto simp add: dfs.psimps split: sum.splits if_splits)
      from False a have "visited (enter node st) \<subseteq> visited st1"
        using "1.IH" by blast
      then show ?thesis
        by (auto simp add: b enter_def)
    qed
  next
    case (2 g st)
    then show ?case by (simp add: dfs_for.psimps)
  next
    case (3 g neighbor rest st)
    from "3.prems" "3.hyps" obtain st1 where
      a: "dfs g neighbor st = Inr st1" and b: "dfs_for g rest st1 = Inr st'"
      by (auto simp add: dfs_for.psimps split: sum.splits)
    from a have "visited st \<subseteq> visited st1" by (rule "3.IH"(1))
    moreover from a b have "visited st1 \<subseteq> visited st'" by (rule "3.IH"(2))
    ultimately show ?case by blast
  qed
  have fin: "finite (nodes g)" for g :: "'a graph"
    by (simp add: nodes_def)
  have white: "card (nodes g - visited (enter node st)) < card (nodes g - visited st)"
    if "node \<in> nodes g" "node \<notin> visited st" for g :: "'a graph" and node st
  proof -
    have "nodes g - visited (enter node st) \<subset> nodes g - visited st"
      using that by (auto simp add: enter_def)
    then show ?thesis
      using fin by (simp add: psubset_card_mono)
  qed
  have outside: "getitem g node = [] \<and> nodes g - visited (enter node st) = nodes g - visited st"
    if "node \<notin> nodes g" for g :: "'a graph" and node st
  proof -
    from that have "node \<notin> fst ` set g" by (simp add: nodes_def)
    then have "map_of g node = None" by (simp add: map_of_eq_None_iff)
    then show ?thesis
      using that by (auto simp add: getitem_def enter_def)
  qed
  have shrink: "card (nodes g - visited st') \<le> card (nodes g - visited st)"
    if "visited st \<subseteq> visited st'" for g :: "'a graph" and st st' :: "'a dfs_state"
    using that fin by (auto intro: card_mono)
  show ?thesis
  proof (relation "inv_image (less_than <*lex*> less_than)
     (\<lambda>x. case x of Inl (g, node, st) \<Rightarrow> (card (nodes g - visited st), 1)
                  | Inr (g, ns, st) \<Rightarrow> (card (nodes g - visited st), 2 * length ns))",
     goal_cases)
    case 1
    show ?case by auto
  next
    case (2 g node st)
    show ?case
      using white [of node g st] outside [of node g st] 2 by (cases "node \<in> nodes g") auto
  next
    case (3 g neighbor rest st)
    show ?case by simp
  next
    case (4 g neighbor rest st st')
    then have "visited st \<subseteq> visited st'" by (simp add: mono(1))
    then show ?case
      using shrink [of st st' g] by auto
  qed
qed

text \<open>
  The loop over the roots, \<^verbatim>\<open>for node in list(graph)\<close>, each root with a fresh
  \<^verbatim>\<open>path\<close>, and \<^verbatim>\<open>detect_cycles\<close> itself.
\<close>

definition init_state :: "'a dfs_state" where
  "init_state = \<lparr>visited = {}, rec_stack = {}, all_cycles = [], unique_cycles = {}, path = []\<rparr>"

fun dfs_roots :: "('a::linorder) graph \<Rightarrow> 'a list \<Rightarrow> 'a dfs_state \<Rightarrow> error + 'a dfs_state" where
  "dfs_roots g [] st = Inr st"
| "dfs_roots g (node # rest) st =
     (if node \<notin> visited st then
        (case dfs g node (st\<lparr>path := []\<rparr>) of
           Inl e \<Rightarrow> Inl e
         | Inr st' \<Rightarrow> dfs_roots g rest st')
      else dfs_roots g rest st)"

definition detect_cycles :: "('a::linorder) graph \<Rightarrow> error + 'a list list" where
  "detect_cycles graph =
     (case dfs_roots graph (map fst graph) init_state of
        Inl e \<Rightarrow> Inl e
      | Inr st \<Rightarrow> Inr (all_cycles st))"

subsection \<open>\<^verbatim>\<open>detect_broader_violations\<close>\<close>

text \<open>
  The graph library is not part of the program. Its two functions are parameters of the
  model: \<open>nx_descendants g u\<close> stands for \<^verbatim>\<open>set(nx.descendants(graph, u))\<close>, given as the
  list of its elements in the order in which the \<^verbatim>\<open>for\<close> loop meets them, and
  \<open>shortest_path g u v\<close> stands for \<^verbatim>\<open>nx.shortest_path(graph, u, v)\<close>, which returns a
  list of nodes or raises. A \<^verbatim>\<open>DiGraph\<close> is given as its nodes in insertion order, each
  with its successors. \<^verbatim>\<open>path_back[1:]\<close> is \<open>drop 1\<close>.
\<close>

record 'a violation =
  source :: 'a
  target :: 'a
  cycle :: "'a list"

definition dict_get :: "('k \<times> 'v) list \<Rightarrow> 'k \<Rightarrow> 'v \<Rightarrow> 'v" where
  "dict_get d k dflt = (case map_of d k of None \<Rightarrow> dflt | Some v \<Rightarrow> v)"

fun violations_from :: "('a graph \<Rightarrow> 'a \<Rightarrow> 'a \<Rightarrow> error + 'a list) \<Rightarrow> 'a graph \<Rightarrow>
    ('a \<times> 'a list) list \<Rightarrow> 'a \<Rightarrow> 'a list \<Rightarrow> 'a violation list \<Rightarrow> error + 'a violation list" where
  "violations_from shortest_path graph descendants src [] violations = Inr violations"
| "violations_from shortest_path graph descendants src (dst # rest) violations =
     (if src \<in> set (dict_get descendants dst []) then
        (case shortest_path graph src dst of
           Inl e \<Rightarrow> Inl e
         | Inr path_fwd \<Rightarrow>
             (case shortest_path graph dst src of
                Inl e \<Rightarrow> Inl e
              | Inr path_back \<Rightarrow>
                  violations_from shortest_path graph descendants src rest
                    (violations @ [\<lparr>source = src, target = dst, cycle = path_fwd @ drop 1 path_back\<rparr>])))
      else violations_from shortest_path graph descendants src rest violations)"

fun violations_loop :: "('a graph \<Rightarrow> 'a \<Rightarrow> 'a \<Rightarrow> error + 'a list) \<Rightarrow> 'a graph \<Rightarrow>
    ('a \<times> 'a list) list \<Rightarrow> 'a list \<Rightarrow> 'a violation list \<Rightarrow> error + 'a violation list" where
  "violations_loop shortest_path graph descendants [] violations = Inr violations"
| "violations_loop shortest_path graph descendants (src # rest) violations =
     (case map_of descendants src of
        None \<Rightarrow> Inl KeyError
      | Some ds \<Rightarrow>
          (case violations_from shortest_path graph descendants src ds violations of
             Inl e \<Rightarrow> Inl e
           | Inr violations' \<Rightarrow> violations_loop shortest_path graph descendants rest violations'))"

definition detect_broader_violations ::
  "('a graph \<Rightarrow> 'a \<Rightarrow> 'a list) \<Rightarrow> ('a graph \<Rightarrow> 'a \<Rightarrow> 'a \<Rightarrow> error + 'a list) \<Rightarrow> 'a graph \<Rightarrow>
     error + 'a violation list" where
  "detect_broader_violations nx_descendants shortest_path graph =
     (let descendants = map (\<lambda>node. (node, nx_descendants graph node)) (map fst graph)
      in violations_loop shortest_path graph descendants (map fst graph) [])"

subsection \<open>\<^verbatim>\<open>main\<close>\<close>

text \<open>
  \<^verbatim>\<open>main\<close> builds the two graphs from the edge sets. A loop over a Python set meets
  its elements in an order the program does not choose; the order is the parameter
  \<open>iteration_order\<close>, which gives the elements of a set as a list.

  \<^verbatim>\<open>pc_graph[s].append(t)\<close> on the \<^verbatim>\<open>defaultdict(list)\<close>: a new key goes to the end.
\<close>

definition append_item :: "'a graph \<Rightarrow> 'a \<Rightarrow> 'a \<Rightarrow> 'a graph" where
  "append_item g s t =
     (if s \<in> fst ` set g then map (\<lambda>(k, v). if k = s then (k, v @ [t]) else (k, v)) g
      else g @ [(s, [t])])"

definition build_graph :: "('a \<times> 'a) list \<Rightarrow> 'a graph" where
  "build_graph pc_edges = foldl (\<lambda>g (s, t). append_item g s t) [] pc_edges"

text \<open>
  \<^verbatim>\<open>nx.DiGraph()\<close> and \<^verbatim>\<open>add_edges_from\<close>: an edge adds its two ends as nodes when
  they are new, and the target to the successors of the source when it is new there.
\<close>

definition add_node :: "'a graph \<Rightarrow> 'a \<Rightarrow> 'a graph" where
  "add_node g u = (if u \<in> fst ` set g then g else g @ [(u, [])])"

definition add_edge :: "'a graph \<Rightarrow> 'a \<Rightarrow> 'a \<Rightarrow> 'a graph" where
  "add_edge g u v =
     map (\<lambda>(k, vs). (k, if k = u then (if v \<in> set vs then vs else vs @ [v]) else vs))
       (add_node (add_node g u) v)"

definition add_edges_from :: "('a \<times> 'a) list \<Rightarrow> 'a graph" where
  "add_edges_from es = foldl (\<lambda>g (u, v). add_edge g u v) [] es"

text \<open>
  The command line gives the resource and one of three analyses. The statistics are a
  dictionary from the name of a metric to a count or to a time in seconds; the three times
  come from the clock and are parameters. \<open>setitem\<close> is \<^verbatim>\<open>stats[key] = value\<close>. The
  result of \<^verbatim>\<open>main\<close> is what it hands to \<^verbatim>\<open>save_results\<close>.
\<close>

datatype analysis = ParentChild | BroaderThan | Both

datatype 't stat = Count int | Seconds 't

definition setitem :: "('k \<times> 'v) list \<Rightarrow> 'k \<Rightarrow> 'v \<Rightarrow> ('k \<times> 'v) list" where
  "setitem d k v =
     (if k \<in> fst ` set d then map (\<lambda>(k', v'). (k', if k' = k then v else v')) d
      else d @ [(k, v)])"

record 't report =
  report_cycles :: "str list list"
  report_violations :: "str violation list"
  report_duplicates :: "edge \<rightharpoonup> int"
  report_self_loops :: "(str \<times> str) set"
  report_stats :: "(string \<times> 't stat) list"

definition initial_stats :: "parsed \<Rightarrow> (string \<times> 't stat) list" where
  "initial_stats p =
     [(''Total Parent-Child Relationships'', Count (int (card (parent_child_edges p)))),
      (''Total Broader-Than Relationships'', Count (int (card (broader_than_edges p)))),
      (''Total Unique Relationship Types'', Count (int (card (relationship_types p)))),
      (''Total Self-Loops'', Count (int (card (self_loops p)))),
      (''Total Duplicates'',
         Count (int (card {e. \<exists>c. duplicate_edges p e = Some c \<and> 1 < c})))]"

definition main ::
  "(edge set \<Rightarrow> edge list) \<Rightarrow> (str graph \<Rightarrow> str \<Rightarrow> str list) \<Rightarrow>
   (str graph \<Rightarrow> str \<Rightarrow> str \<Rightarrow> error + str list) \<Rightarrow> 't \<Rightarrow> 't \<Rightarrow> 't \<Rightarrow>
   resource \<Rightarrow> analysis \<Rightarrow> error + 't report" where
  "main iteration_order nx_descendants shortest_path pc_time bt_time total_time input analysis =
     (case parse_mrrel input of
        Inl e \<Rightarrow> Inl e
      | Inr p \<Rightarrow>
          (case (if analysis = ParentChild \<or> analysis = Both then
                   (case detect_cycles (build_graph (iteration_order (parent_child_edges p))) of
                      Inl e \<Rightarrow> Inl e
                    | Inr cycles \<Rightarrow>
                        Inr (cycles,
                          setitem
                            (setitem (initial_stats p) ''Parent-Child Cycle Count''
                               (Count (int (length cycles))))
                            ''Parent-Child Detection Time (s)'' (Seconds pc_time)))
                 else Inr ([], initial_stats p)) of
             Inl e \<Rightarrow> Inl e
           | Inr (cycles, stats) \<Rightarrow>
               (case (if analysis = BroaderThan \<or> analysis = Both then
                        (case detect_broader_violations nx_descendants shortest_path
                                (add_edges_from (iteration_order (broader_than_edges p))) of
                           Inl e \<Rightarrow> Inl e
                         | Inr violations \<Rightarrow>
                             Inr (violations,
                               setitem
                                 (setitem stats ''Broader-Than Violation Count''
                                    (Count (int (length violations))))
                                 ''Broader-Than Detection Time (s)'' (Seconds bt_time)))
                      else Inr ([], stats)) of
                  Inl e \<Rightarrow> Inl e
                | Inr (violations, stats) \<Rightarrow>
                    Inr \<lparr>report_cycles = cycles, report_violations = violations,
                         report_duplicates = duplicate_edges p,
                         report_self_loops = self_loops p,
                         report_stats = setitem stats ''Total Runtime (s)'' (Seconds total_time)\<rparr>)))"

subsection \<open>The specification's vocabulary for the edge classifier\<close>

text \<open>
  The definitions of this subsection follow the words of the specification, not the
  source: the classification table of its section 4.1, read per family, and the number of
  records that assert an edge. The theorems below compare them with \<open>classify\<close>.
\<close>

definition spec_hierarchy_edge :: "str \<times> str \<times> str \<Rightarrow> edge option" where
  "spec_hierarchy_edge rec =
     (case rec of (s, r, t) \<Rightarrow>
        if s = t then None
        else if r = py ''CHD'' then Some (t, s)
        else if r = py ''PAR'' then Some (s, t)
        else None)"

definition spec_dominance_edge :: "str \<times> str \<times> str \<Rightarrow> edge option" where
  "spec_dominance_edge rec =
     (case rec of (s, r, t) \<Rightarrow>
        if s = t then None
        else if r = py ''RB'' then Some (s, t)
        else if r = py ''RN'' then Some (t, s)
        else None)"

definition spec_asserts :: "str \<times> str \<times> str \<Rightarrow> edge \<Rightarrow> bool" where
  "spec_asserts rec e \<longleftrightarrow> spec_hierarchy_edge rec = Some e \<or> spec_dominance_edge rec = Some e"

definition assertions :: "(str \<times> str \<times> str) list \<Rightarrow> edge \<Rightarrow> int" where
  "assertions recs e = int (length (filter (\<lambda>rec. spec_asserts rec e) recs))"

definition records_of :: "str list \<Rightarrow> (str \<times> str \<times> str) list" where
  "records_of lines = List.map_filter line_fields lines"

text \<open>
  A line written from its fields (\<^verbatim>\<open>"|".join(fs)\<close>), a string of whitespace only, and
  a field that is another one with whitespace around it.
\<close>

fun join_str :: "codepoint \<Rightarrow> str list \<Rightarrow> str" where
  "join_str sep [] = []"
| "join_str sep [f] = f"
| "join_str sep (f # g # fs) = f @ sep # join_str sep (g # fs)"

definition blank :: "str \<Rightarrow> bool" where
  "blank s \<longleftrightarrow> list_all isspace s"

definition padded :: "str \<Rightarrow> str \<Rightarrow> bool" where
  "padded g f \<longleftrightarrow> (\<exists>a b. blank a \<and> blank b \<and> g = a @ f @ b)"

subsection \<open>Graphs, cycles and clusters\<close>

text \<open>
  The edge relation of a graph, the strongly connected cluster of a node (the nodes that
  reach it and are reached from it), and what a reported cycle has to be: a non-empty list
  of nodes, each with an edge to the next and the last with an edge to the first.
\<close>

definition edges :: "'a graph \<Rightarrow> ('a \<times> 'a) set" where
  "edges g = {(u, v). v \<in> set (getitem g u)}"

definition cluster :: "'a graph \<Rightarrow> 'a \<Rightarrow> 'a set" where
  "cluster g u = {v. (u, v) \<in> (edges g)\<^sup>* \<and> (v, u) \<in> (edges g)\<^sup>*}"











subsection \<open>Paths and the contract of the graph library\<close>

text \<open>
  What the documentation of the library promises for the calls the detector makes:
  \<^verbatim>\<open>descendants\<close> is the set of nodes reachable from the node in one or more steps, the
  node itself left out; \<^verbatim>\<open>shortest_path\<close> returns a path with the fewest nodes. Two
  nodes are mutually reachable when they differ and each reaches the other.
\<close>

definition is_path :: "'a graph \<Rightarrow> 'a \<Rightarrow> 'a \<Rightarrow> 'a list \<Rightarrow> bool" where
  "is_path g u v p \<longleftrightarrow>
     p \<noteq> [] \<and> hd p = u \<and> last p = v \<and> successively (\<lambda>a b. (a, b) \<in> edges g) p"

definition is_shortest_path :: "'a graph \<Rightarrow> 'a \<Rightarrow> 'a \<Rightarrow> 'a list \<Rightarrow> bool" where
  "is_shortest_path g u v p \<longleftrightarrow> is_path g u v p \<and> (\<forall>q. is_path g u v q \<longrightarrow> length p \<le> length q)"

definition mutual :: "'a graph \<Rightarrow> ('a \<times> 'a) set" where
  "mutual g = {(u, v). u \<noteq> v \<and> (u, v) \<in> (edges g)\<^sup>+ \<and> (v, u) \<in> (edges g)\<^sup>+}"

definition descendants_contract :: "('a graph \<Rightarrow> 'a \<Rightarrow> 'a list) \<Rightarrow> 'a graph \<Rightarrow> bool" where
  "descendants_contract nx_descendants g \<longleftrightarrow>
     (\<forall>u \<in> set (map fst g). distinct (nx_descendants g u) \<and>
        set (nx_descendants g u) = {v. v \<noteq> u \<and> (u, v) \<in> (edges g)\<^sup>+})"

definition shortest_path_contract :: "('a graph \<Rightarrow> 'a \<Rightarrow> 'a \<Rightarrow> error + 'a list) \<Rightarrow> 'a graph \<Rightarrow> bool" where
  "shortest_path_contract shortest_path g \<longleftrightarrow>
     (\<forall>u v. (u, v) \<in> mutual g \<longrightarrow> (\<exists>p. shortest_path g u v = Inr p \<and> is_shortest_path g u v p))"

definition the_path :: "error + 'a list \<Rightarrow> 'a list" where
  "the_path r = (case r of Inl e \<Rightarrow> [] | Inr p \<Rightarrow> p)"

definition mk_violation :: "('a graph \<Rightarrow> 'a \<Rightarrow> 'a \<Rightarrow> error + 'a list) \<Rightarrow> 'a graph \<Rightarrow> 'a \<Rightarrow> 'a \<Rightarrow> 'a violation" where
  "mk_violation sp g src dst =
     \<lparr>source = src, target = dst,
      cycle = the_path (sp g src dst) @ drop 1 (the_path (sp g dst src))\<rparr>"

text \<open>
  For the graph of the two edges \<open>(A, B)\<close> and \<open>(B, A)\<close>: its descendants, and the
  paths of one edge, which are its shortest paths.
\<close>

definition two_node_descendants :: "str graph \<Rightarrow> str \<Rightarrow> str list" where
  "two_node_descendants g u =
     (if u = py ''A'' then [py ''B''] else if u = py ''B'' then [py ''A''] else [])"

definition direct_path :: "str graph \<Rightarrow> str \<Rightarrow> str \<Rightarrow> error + str list" where
  "direct_path g u v = Inr [u, v]"

subsection \<open>Raw hierarchy records\<close>

text \<open>
  For the statistics: the records read with a hierarchy code, which is the raw record
  count the specification contrasts the statistic with, and the hierarchy edges they
  assert, one per record that is not a self-loop.
\<close>

definition hierarchy_records :: "str list \<Rightarrow> (str \<times> str \<times> str) list" where
  "hierarchy_records lines =
     filter (\<lambda>rec. fst (snd rec) = py ''CHD'' \<or> fst (snd rec) = py ''PAR'') (records_of lines)"

definition hierarchy_assertions :: "str list \<Rightarrow> edge list" where
  "hierarchy_assertions lines = List.map_filter spec_hierarchy_edge (records_of lines)"

text \<open>An iteration order for the set of the one edge \<open>(C2, C1)\<close>.\<close>

definition one_edge_order :: "edge set \<Rightarrow> edge list" where
  "one_edge_order s = (if s = {(py ''C2'', py ''C1'')} then [(py ''C2'', py ''C1'')] else [])"

section \<open>Properties of the edge classifier\<close>

lemma codes_distinct:
  "py ''CHD'' \<noteq> py ''PAR''" "py ''CHD'' \<noteq> py ''RB''" "py ''CHD'' \<noteq> py ''RN''"
  "py ''PAR'' \<noteq> py ''RB''" "py ''PAR'' \<noteq> py ''RN''" "py ''RB'' \<noteq> py ''RN''"
  "py ''PAR'' \<noteq> py ''CHD''" "py ''RB'' \<noteq> py ''CHD''" "py ''RN'' \<noteq> py ''CHD''"
  "py ''RB'' \<noteq> py ''PAR''" "py ''RN'' \<noteq> py ''PAR''" "py ''RN'' \<noteq> py ''RB''"
  by (simp_all add: py_def)

lemma classify_self_loop:
  "classify st (s, r, s) =
     st\<lparr>relationship_types := insert r (relationship_types st),
        self_loops := insert (s, r) (self_loops st)\<rparr>"
  by (simp add: classify_def Let_def)

lemma classify_parent_child:
  "parent_child_edges (classify st rec) = parent_child_edges st \<union> set_option (spec_hierarchy_edge rec)"
  by (cases rec) (simp add: classify_def Let_def spec_hierarchy_edge_def codes_distinct)

lemma classify_broader_than:
  "broader_than_edges (classify st rec) = broader_than_edges st \<union> set_option (spec_dominance_edge rec)"
  by (cases rec) (simp add: classify_def Let_def spec_dominance_edge_def codes_distinct)

lemma classify_duplicate:
  "duplicate_edges (classify st rec) e =
     (if spec_asserts rec e
      then Some ((case duplicate_edges st e of None \<Rightarrow> 0 | Some n \<Rightarrow> n) + 1)
      else duplicate_edges st e)"
  by (cases rec)
     (auto simp add: classify_def Let_def spec_asserts_def spec_hierarchy_edge_def spec_dominance_edge_def
        increment_def codes_distinct)

lemma classify_self_loops_mono: "self_loops st \<subseteq> self_loops (classify st rec)"
  by (cases rec) (auto simp add: classify_def Let_def)

lemma parse_lines_records:
  "foldl parse_line st lines = foldl classify st (records_of lines)"
  by (induction lines arbitrary: st)
     (simp_all add: records_of_def parse_line_def List.map_filter_simps split: option.splits)

lemma foldl_classify_parent_child:
  "parent_child_edges (foldl classify st recs) =
     parent_child_edges st \<union> {e. \<exists>rec \<in> set recs. spec_hierarchy_edge rec = Some e}"
  by (induction recs arbitrary: st) (auto simp add: classify_parent_child)

lemma foldl_classify_broader_than:
  "broader_than_edges (foldl classify st recs) =
     broader_than_edges st \<union> {e. \<exists>rec \<in> set recs. spec_dominance_edge rec = Some e}"
  by (induction recs arbitrary: st) (auto simp add: classify_broader_than)

lemma assertions_Nil: "assertions [] e = 0"
  by (simp add: assertions_def)

lemma assertions_Cons:
  "assertions (rec # recs) e = (if spec_asserts rec e then 1 else 0) + assertions recs e"
  by (simp add: assertions_def)

lemma assertions_nonneg: "0 \<le> assertions recs e"
  by (simp add: assertions_def)

lemma foldl_classify_duplicate:
  "duplicate_edges (foldl classify st recs) e =
     (if assertions recs e = 0 then duplicate_edges st e
      else Some ((case duplicate_edges st e of None \<Rightarrow> 0 | Some n \<Rightarrow> n) + assertions recs e))"
proof (induction recs arbitrary: st)
  case Nil
  show ?case by (simp add: assertions_Nil)
next
  case (Cons rec recs)
  have nn: "0 \<le> assertions recs e" by (rule assertions_nonneg)
  show ?case
    using nn by (simp add: Cons.IH classify_duplicate assertions_Cons)
qed

lemma bar_not_space: "\<not> isspace bar"
  by (simp add: isspace_def bar_def)

lemma split_str_not_Nil: "split_str sep s \<noteq> []"
  by (induction s) (auto split: list.splits)

lemma split_str_Cons:
  "split_str sep (c # cs) =
     (if c = sep then [] # split_str sep cs
      else (c # hd (split_str sep cs)) # tl (split_str sep cs))"
  using split_str_not_Nil [of sep cs] by (cases "split_str sep cs") simp_all

lemma split_str_prefix:
  "sep \<notin> set f \<Longrightarrow>
     split_str sep (f @ s) = (f @ hd (split_str sep s)) # tl (split_str sep s)"
proof (induction f)
  case Nil
  then show ?case using split_str_not_Nil [of sep s] by simp
next
  case (Cons c f)
  then show ?case by (simp add: split_str_Cons del: split_str.simps)
qed

lemma split_str_no_sep: "sep \<notin> set f \<Longrightarrow> split_str sep f = [f]"
  using split_str_prefix [of sep f "[]"] by simp

lemma split_join:
  "fs \<noteq> [] \<Longrightarrow> \<forall>f \<in> set fs. sep \<notin> set f \<Longrightarrow> split_str sep (join_str sep fs) = fs"
proof (induction sep fs rule: join_str.induct)
  case (1 sep)
  then show ?case by simp
next
  case (2 sep f)
  then show ?case by (simp add: split_str_no_sep)
next
  case (3 sep f g fs)
  then show ?case by (simp add: split_str_prefix)
qed

lemma split_dropWhile:
  "\<not> P sep \<Longrightarrow>
     split_str sep (dropWhile P s) = dropWhile P (hd (split_str sep s)) # tl (split_str sep s)"
proof (induction s)
  case Nil
  then show ?case by simp
next
  case (Cons c cs)
  then show ?case by (auto simp add: split_str_Cons simp del: split_str.simps)
qed

lemma split_str_snoc:
  "split_str sep (s @ [c]) =
     (if c = sep then split_str sep s @ [[]]
      else butlast (split_str sep s) @ [last (split_str sep s) @ [c]])"
proof (induction s)
  case Nil
  then show ?case by simp
next
  case (Cons d s)
  then show ?case
    using split_str_not_Nil [of sep s]
    by (cases "split_str sep s") (auto split: list.splits if_splits)
qed

lemma split_str_rev: "split_str sep (rev s) = rev (map rev (split_str sep s))"
proof (induction s)
  case Nil
  then show ?case by simp
next
  case (Cons c s)
  then show ?case
    using split_str_not_Nil [of sep s]
    by (cases "split_str sep s") (auto simp add: split_str_snoc split_str_Cons simp del: split_str.simps)
qed

lemma strip_pad:
  assumes "blank a" "blank b"
  shows "strip (a @ s @ b) = strip s"
proof -
  from assms have a: "\<And>x. x \<in> set a \<Longrightarrow> isspace x" and b: "\<And>x. x \<in> set b \<Longrightarrow> isspace x"
    by (auto simp add: blank_def list_all_iff)
  have 2: "\<And>ys. dropWhile isspace (rev b @ ys) = dropWhile isspace ys"
    by (rule dropWhile_append2) (simp add: b)
  have 1: "dropWhile isspace (a @ s @ b) = dropWhile isspace (s @ b)"
    using a by (simp add: dropWhile_append2)
  show ?thesis
  proof (cases "\<forall>x \<in> set s. isspace x")
    case True
    then have e: "dropWhile isspace (s @ b) = []" "dropWhile isspace s = []"
      using assms(2) by (auto simp add: blank_def list_all_iff dropWhile_eq_Nil_conv)
    show ?thesis unfolding strip_def 1 e by simp
  next
    case False
    then obtain x where "x \<in> set s" "\<not> isspace x" by blast
    then have "dropWhile isspace (s @ b) = dropWhile isspace s @ b"
      by (simp add: dropWhile_append1)
    then show ?thesis
      by (simp add: strip_def 1 2)
  qed
qed

lemma strip_dropWhile: "strip (dropWhile isspace s) = strip s"
proof -
  have "strip (takeWhile isspace s @ dropWhile isspace s @ []) = strip (dropWhile isspace s)"
    by (rule strip_pad) (auto simp add: blank_def list_all_iff dest: set_takeWhileD)
  then show ?thesis by simp
qed

lemma strip_dropWhile_rev: "strip (rev (dropWhile isspace (rev s))) = strip s"
proof -
  have "strip ([] @ rev (dropWhile isspace (rev s)) @ rev (takeWhile isspace (rev s)))
          = strip (rev (dropWhile isspace (rev s)))"
    by (rule strip_pad) (auto simp add: blank_def list_all_iff dest: set_takeWhileD)
  moreover have "rev (dropWhile isspace (rev s)) @ rev (takeWhile isspace (rev s)) = s"
    by (metis rev_append rev_rev_ident takeWhile_dropWhile_id)
  ultimately show ?thesis by simp
qed

lemma strip_padded: "padded g f \<Longrightarrow> strip g = strip f"
  by (auto simp add: padded_def strip_pad)

lemma tl_rev_butlast: "tl (rev xs) = rev (butlast xs)"
  by (induction xs) auto

lemma split_dropWhile_rev:
  assumes "\<not> P sep"
  shows "split_str sep (rev (dropWhile P (rev t))) =
           butlast (split_str sep t) @ [rev (dropWhile P (rev (last (split_str sep t))))]"
proof -
  define sp where "sp = split_str sep t"
  have ne: "sp \<noteq> []" by (simp add: sp_def split_str_not_Nil)
  have "split_str sep (rev t) = rev (map rev sp)"
    by (simp add: split_str_rev sp_def)
  then have "split_str sep (dropWhile P (rev t)) =
               dropWhile P (rev (last sp)) # rev (map rev (butlast sp))"
    using ne assms by (simp add: split_dropWhile hd_rev last_map map_butlast tl_rev_butlast)
  then have "split_str sep (rev (dropWhile P (rev t))) =
               butlast sp @ [rev (dropWhile P (rev (last sp)))]"
    by (simp add: split_str_rev [of sep "dropWhile P (rev t)"] rev_map)
  then show ?thesis by (simp add: sp_def)
qed

text \<open>The fields of the stripped line are, up to their own stripping, those of the line.\<close>

lemma split_strip:
  "list_all2 (\<lambda>x y. strip x = strip y) (split_str bar (strip s)) (split_str bar s)"
proof -
  define s1 where "s1 = dropWhile isspace s"
  define sp where "sp = split_str bar s"
  define sp1 where "sp1 = split_str bar s1"
  have ne: "sp \<noteq> []" "sp1 \<noteq> []" by (simp_all add: sp_def sp1_def split_str_not_Nil)
  have "sp1 = dropWhile isspace (hd sp) # tl sp"
    by (simp add: sp1_def s1_def sp_def split_dropWhile bar_not_space)
  moreover have "list_all2 (\<lambda>x y. strip x = strip y) (dropWhile isspace (hd sp) # tl sp) (hd sp # tl sp)"
    by (simp add: strip_dropWhile list_all2_same)
  ultimately have A: "list_all2 (\<lambda>x y. strip x = strip y) sp1 sp"
    using ne by simp
  have "split_str bar (strip s) = butlast sp1 @ [rev (dropWhile isspace (rev (last sp1)))]"
    by (simp add: strip_def s1_def sp1_def split_dropWhile_rev bar_not_space)
  moreover have "list_all2 (\<lambda>x y. strip x = strip y)
      (butlast sp1 @ [rev (dropWhile isspace (rev (last sp1)))]) (butlast sp1 @ [last sp1])"
    by (rule list_all2_appendI) (simp_all add: list_all2_same strip_dropWhile_rev)
  ultimately have B: "list_all2 (\<lambda>x y. strip x = strip y) (split_str bar (strip s)) sp1"
    using ne by simp
  have "list_all2 (\<lambda>x y. strip x = strip y) (split_str bar (strip s)) sp"
    by (rule list_all2_trans [OF _ B A]) simp
  then show ?thesis by (simp add: sp_def)
qed

lemma line_fields_of_split:
  "line_fields line =
     (let parts = split_str bar line in
      if length parts < 5 then None
      else Some (strip (parts ! 0), strip (parts ! 3), strip (parts ! 4)))"
proof -
  have R: "list_all2 (\<lambda>x y. strip x = strip y) (split_str bar (strip line)) (split_str bar line)"
    by (rule split_strip)
  then have len: "length (split_str bar (strip line)) = length (split_str bar line)"
    by (rule list_all2_lengthD)
  have nth: "\<And>i. i < length (split_str bar line) \<Longrightarrow>
      strip (split_str bar (strip line) ! i) = strip (split_str bar line ! i)"
    using R by (simp add: list_all2_conv_all_nth)
  have "strip (split_str bar (strip line) ! 0) = strip (split_str bar line ! 0) \<and>
      strip (split_str bar (strip line) ! 3) = strip (split_str bar line ! 3) \<and>
      strip (split_str bar (strip line) ! 4) = strip (split_str bar line ! 4)"
    if "5 \<le> length (split_str bar line)"
  proof -
    from that have "0 < length (split_str bar line)" "3 < length (split_str bar line)"
      "4 < length (split_str bar line)" by linarith+
    then show ?thesis by (intro conjI nth)
  qed
  then show ?thesis
    by (auto simp add: line_fields_def Let_def len)
qed

lemma line_fields_join:
  assumes "5 \<le> length fs" and "\<forall>f \<in> set fs. bar \<notin> set f"
  shows "line_fields (join_str bar fs) = Some (strip (fs ! 0), strip (fs ! 3), strip (fs ! 4))"
proof -
  from assms(1) have "fs \<noteq> []" by auto
  then have "split_str bar (join_str bar fs) = fs"
    using assms(2) by (rule split_join)
  then show ?thesis
    using assms(1) by (simp add: line_fields_of_split)
qed

lemma parse_mrrel_File:
  "parse_mrrel (File lines) = Inr (foldl classify empty_parsed (records_of lines))"
  by (simp add: parse_mrrel_def parse_lines_records)

lemma records_of_Nil: "records_of [] = []"
  by (simp add: records_of_def List.map_filter_simps)

lemma records_of_Cons:
  "records_of (l # ls) = (case line_fields l of None \<Rightarrow> records_of ls | Some rec \<Rightarrow> rec # records_of ls)"
  by (simp add: records_of_def List.map_filter_simps split: option.splits)

lemma records_of_append: "records_of (xs @ ys) = records_of xs @ records_of ys"
  by (simp add: records_of_def List.map_filter_def)

lemma hierarchy_edge_irrefl: "spec_hierarchy_edge rec \<noteq> Some (a, a)"
  by (cases rec) (auto simp add: spec_hierarchy_edge_def)

lemma dominance_edge_irrefl: "spec_dominance_edge rec \<noteq> Some (a, a)"
  by (cases rec) (auto simp add: spec_dominance_edge_def)

lemma self_loop_asserts_nothing: "\<not> spec_asserts (s, r, s) e"
  by (simp add: spec_asserts_def spec_hierarchy_edge_def spec_dominance_edge_def)

lemma foldl_classify_self_loops_mono:
  "x \<in> self_loops st \<Longrightarrow> x \<in> self_loops (foldl classify st recs)"
proof (induction recs arbitrary: st)
  case Nil
  then show ?case by simp
next
  case (Cons rec recs)
  from Cons.prems have "x \<in> self_loops (classify st rec)"
    using classify_self_loops_mono [of st rec] by blast
  then show ?case by (simp add: Cons.IH)
qed

lemma foldl_classify_self_loop_member:
  "(s, r, s) \<in> set recs \<Longrightarrow> (s, r) \<in> self_loops (foldl classify st recs)"
proof (induction recs arbitrary: st)
  case Nil
  then show ?case by simp
next
  case (Cons rec recs)
  show ?case
  proof (cases "rec = (s, r, s)")
    case True
    have "(s, r) \<in> self_loops (classify st (s, r, s))"
      by (simp add: classify_self_loop)
    then show ?thesis
      using True by (simp add: foldl_classify_self_loops_mono)
  next
    case False
    with Cons show ?thesis by simp
  qed
qed

text \<open>
  Claim C3. Both inverse codes of a family are normalised onto one direction. A line whose
  fields are \<open>(a, CHD, b)\<close> and a line whose fields are \<open>(b, PAR, a)\<close> both give the
  hierarchy edge \<open>(b, a)\<close> and no dominance edge; a line \<open>(c, RB, d)\<close> and a line
  \<open>(d, RN, c)\<close> both give the dominance edge \<open>(c, d)\<close> and no hierarchy edge. With
  \<open>a = C1\<close>, \<open>b = C2\<close>, \<open>c = C3\<close>, \<open>d = C4\<close> these are the records of the claim.
\<close>

theorem inverse_codes_one_direction:
  assumes "a \<noteq> b"
    and "line_fields l1 = Some (a, py ''CHD'', b)" and "line_fields l2 = Some (b, py ''PAR'', a)"
    and "c \<noteq> d"
    and "line_fields l3 = Some (c, py ''RB'', d)" and "line_fields l4 = Some (d, py ''RN'', c)"
  shows "(\<exists>p. parse_mrrel (File [l1]) = Inr p \<and>
              parent_child_edges p = {(b, a)} \<and> broader_than_edges p = {}) \<and>
         (\<exists>p. parse_mrrel (File [l2]) = Inr p \<and>
              parent_child_edges p = {(b, a)} \<and> broader_than_edges p = {}) \<and>
         (\<exists>p. parse_mrrel (File [l3]) = Inr p \<and>
              broader_than_edges p = {(c, d)} \<and> parent_child_edges p = {}) \<and>
         (\<exists>p. parse_mrrel (File [l4]) = Inr p \<and>
              broader_than_edges p = {(c, d)} \<and> parent_child_edges p = {})"
  using assms
  by (simp add: parse_mrrel_File records_of_Cons records_of_Nil classify_parent_child
      classify_broader_than spec_hierarchy_edge_def spec_dominance_edge_def codes_distinct empty_parsed_def)

lemma fields_C1_CHD_C2:
  "line_fields (py ''C1|A1|AUI|CHD|C2|A2|AUI||R1||SRC|SRC|||N||'' @ [10]) = Some (py ''C1'', py ''CHD'', py ''C2'')"
  by (simp add: line_fields_def py_def strip_def isspace_def bar_def)

lemma fields_C2_PAR_C1:
  "line_fields (py ''C2|A2|AUI|PAR|C1|A1|AUI||R2||SRC|SRC|||N||'' @ [10]) = Some (py ''C2'', py ''PAR'', py ''C1'')"
  by (simp add: line_fields_def py_def strip_def isspace_def bar_def)

lemma fields_C3_RB_C4:
  "line_fields (py ''C3|A3|AUI|RB|C4|A4|AUI||R3||SRC|SRC|||N||'' @ [10]) = Some (py ''C3'', py ''RB'', py ''C4'')"
  by (simp add: line_fields_def py_def strip_def isspace_def bar_def)

lemma fields_C4_RN_C3:
  "line_fields (py ''C4|A4|AUI|RN|C3|A3|AUI||R4||SRC|SRC|||N||'' @ [10]) = Some (py ''C4'', py ''RN'', py ''C3'')"
  by (simp add: line_fields_def py_def strip_def isspace_def bar_def)

lemma C1_neq_C2: "py ''C1'' \<noteq> py ''C2''" "py ''C3'' \<noteq> py ''C4''"
  by (simp_all add: py_def)

theorem inverse_codes_one_direction_witness:
  "(\<exists>p. parse_mrrel (File [py ''C1|A1|AUI|CHD|C2|A2|AUI||R1||SRC|SRC|||N||'' @ [10]]) = Inr p \<and>
        parent_child_edges p = {(py ''C2'', py ''C1'')} \<and> broader_than_edges p = {}) \<and>
   (\<exists>p. parse_mrrel (File [py ''C2|A2|AUI|PAR|C1|A1|AUI||R2||SRC|SRC|||N||'' @ [10]]) = Inr p \<and>
        parent_child_edges p = {(py ''C2'', py ''C1'')} \<and> broader_than_edges p = {}) \<and>
   (\<exists>p. parse_mrrel (File [py ''C3|A3|AUI|RB|C4|A4|AUI||R3||SRC|SRC|||N||'' @ [10]]) = Inr p \<and>
        broader_than_edges p = {(py ''C3'', py ''C4'')} \<and> parent_child_edges p = {}) \<and>
   (\<exists>p. parse_mrrel (File [py ''C4|A4|AUI|RN|C3|A3|AUI||R4||SRC|SRC|||N||'' @ [10]]) = Inr p \<and>
        broader_than_edges p = {(py ''C3'', py ''C4'')} \<and> parent_child_edges p = {})"
  using inverse_codes_one_direction [OF C1_neq_C2(1) fields_C1_CHD_C2 fields_C2_PAR_C1
      C1_neq_C2(2) fields_C3_RB_C4 fields_C4_RN_C3]
  by simp

lemma foldl_classify_edges_cong:
  assumes "parent_child_edges s1 = parent_child_edges s2"
    and "broader_than_edges s1 = broader_than_edges s2"
    and "duplicate_edges s1 = duplicate_edges s2"
  shows "parent_child_edges (foldl classify s1 recs) = parent_child_edges (foldl classify s2 recs) \<and>
         broader_than_edges (foldl classify s1 recs) = broader_than_edges (foldl classify s2 recs) \<and>
         duplicate_edges (foldl classify s1 recs) = duplicate_edges (foldl classify s2 recs)"
proof -
  have "duplicate_edges (foldl classify s1 recs) e = duplicate_edges (foldl classify s2 recs) e" for e
    by (simp add: foldl_classify_duplicate assms)
  then have "duplicate_edges (foldl classify s1 recs) = duplicate_edges (foldl classify s2 recs)"
    by (rule ext)
  then show ?thesis
    by (simp add: foldl_classify_parent_child foldl_classify_broader_than assms)
qed

lemma no_reflexive_edge:
  "(a, a) \<notin> parent_child_edges (foldl classify empty_parsed recs) \<and>
   (a, a) \<notin> broader_than_edges (foldl classify empty_parsed recs)"
  by (simp add: foldl_classify_parent_child foldl_classify_broader_than empty_parsed_def
      hierarchy_edge_irrefl dominance_edge_irrefl)

text \<open>
  Claim C5. A line whose source equals its target puts the pair of the identifier and the
  relation code into the self-loop set, and the edge sets and the counter are those of the
  file without that line: the record contributes no edge, and no edge set holds an edge
  from a node to itself. The detectors read the edge sets only, so the record reaches no
  cycle and no violation.
\<close>

theorem self_loop_recorded_and_excluded:
  assumes "line_fields l = Some (s, r, s)"
  shows "\<exists>p q. parse_mrrel (File (pre @ l # post)) = Inr p \<and>
           parse_mrrel (File (pre @ post)) = Inr q \<and>
           (s, r) \<in> self_loops p \<and>
           parent_child_edges p = parent_child_edges q \<and>
           broader_than_edges p = broader_than_edges q \<and>
           duplicate_edges p = duplicate_edges q \<and>
           (s, s) \<notin> parent_child_edges p \<and> (s, s) \<notin> broader_than_edges p"
proof -
  define st where "st = foldl classify empty_parsed (records_of pre)"
  have recs: "records_of (pre @ l # post) = records_of pre @ (s, r, s) # records_of post"
    using assms by (simp add: records_of_append records_of_Cons)
  have p: "parse_mrrel (File (pre @ l # post)) =
             Inr (foldl classify (classify st (s, r, s)) (records_of post))"
    by (simp add: parse_mrrel_File recs st_def)
  have q: "parse_mrrel (File (pre @ post)) = Inr (foldl classify st (records_of post))"
    by (simp add: parse_mrrel_File records_of_append st_def)
  have same: "parent_child_edges (foldl classify (classify st (s, r, s)) (records_of post)) =
                parent_child_edges (foldl classify st (records_of post)) \<and>
              broader_than_edges (foldl classify (classify st (s, r, s)) (records_of post)) =
                broader_than_edges (foldl classify st (records_of post)) \<and>
              duplicate_edges (foldl classify (classify st (s, r, s)) (records_of post)) =
                duplicate_edges (foldl classify st (records_of post))"
    by (rule foldl_classify_edges_cong) (simp_all add: classify_self_loop)
  have loop: "(s, r) \<in> self_loops (foldl classify (classify st (s, r, s)) (records_of post))"
    by (rule foldl_classify_self_loops_mono) (simp add: classify_self_loop)
  have irrefl: "(s, s) \<notin> parent_child_edges (foldl classify (classify st (s, r, s)) (records_of post)) \<and>
      (s, s) \<notin> broader_than_edges (foldl classify (classify st (s, r, s)) (records_of post))"
    using no_reflexive_edge [of s "records_of (pre @ l # post)"] by (simp add: recs st_def)
  show ?thesis
    using p q same loop irrefl by simp
qed

lemma fields_C100_PAR_C100:
  "line_fields (py ''C100|A1|AUI|PAR|C100|A2|AUI||R1||SRC|SRC|||N||'' @ [10]) =
     Some (py ''C100'', py ''PAR'', py ''C100'')"
  by (simp add: line_fields_def py_def strip_def isspace_def bar_def)

theorem self_loop_recorded_and_excluded_witness:
  "\<exists>p. parse_mrrel (File [py ''C100|A1|AUI|PAR|C100|A2|AUI||R1||SRC|SRC|||N||'' @ [10]]) = Inr p \<and>
     self_loops p = {(py ''C100'', py ''PAR'')} \<and>
     parent_child_edges p = {} \<and> broader_than_edges p = {} \<and> duplicate_edges p = Map.empty"
proof -
  have "self_loops (foldl classify empty_parsed [(py ''C100'', py ''PAR'', py ''C100'')]) =
          {(py ''C100'', py ''PAR'')}"
    by (simp add: classify_self_loop empty_parsed_def)
  then show ?thesis
    using self_loop_recorded_and_excluded [OF fields_C100_PAR_C100, of "[]" "[]"]
    by (simp add: parse_mrrel_File records_of_Cons records_of_Nil fields_C100_PAR_C100
        empty_parsed_def)
qed

text \<open>
  Claim C6. After \<open>parse_mrrel\<close> the keys of the duplicate counter are exactly the union
  of the hierarchy and the dominance edge set, and the count of an edge is the number of
  records, direct or inverse-coded, that assert it (no entry when no record does), while
  the edge sets are sets. The witness is the pair of records of the claim: the counter holds
  \<open>(C2, C1)\<close> with count 2 and the hierarchy edge set holds that edge once.
\<close>

theorem duplicate_counter_keys_and_counts:
  "\<exists>p. parse_mrrel (File lines) = Inr p \<and>
     dom (duplicate_edges p) = parent_child_edges p \<union> broader_than_edges p \<and>
     (\<forall>e. duplicate_edges p e =
        (if assertions (records_of lines) e = 0 then None
         else Some (assertions (records_of lines) e)))"
proof -
  define p where "p = foldl classify empty_parsed (records_of lines)"
  have cnt: "duplicate_edges p e =
      (if assertions (records_of lines) e = 0 then None else Some (assertions (records_of lines) e))" for e
    by (simp add: p_def foldl_classify_duplicate empty_parsed_def)
  have pos: "assertions (records_of lines) e \<noteq> 0 \<longleftrightarrow>
      (\<exists>rec \<in> set (records_of lines). spec_asserts rec e)" for e
    by (auto simp add: assertions_def filter_empty_conv)
  have "dom (duplicate_edges p) = {e. \<exists>rec \<in> set (records_of lines). spec_asserts rec e}"
    using pos by (auto simp add: dom_def cnt)
  also have "\<dots> = parent_child_edges p \<union> broader_than_edges p"
    by (auto simp add: p_def foldl_classify_parent_child foldl_classify_broader_than
        empty_parsed_def spec_asserts_def)
  finally have "dom (duplicate_edges p) = parent_child_edges p \<union> broader_than_edges p" .
  then show ?thesis
    using cnt by (simp add: parse_mrrel_File p_def)
qed

theorem duplicate_counter_keys_and_counts_witness:
  "\<exists>p. parse_mrrel (File [py ''C1|A1|AUI|CHD|C2|A2|AUI||R1||SRC|SRC|||N||'' @ [10],
                          py ''C2|A2|AUI|PAR|C1|A1|AUI||R2||SRC|SRC|||N||'' @ [10]]) = Inr p \<and>
     duplicate_edges p (py ''C2'', py ''C1'') = Some 2 \<and>
     dom (duplicate_edges p) = {(py ''C2'', py ''C1'')} \<and>
     parent_child_edges p = {(py ''C2'', py ''C1'')} \<and>
     card (parent_child_edges p) = 1"
proof -
  let ?L = "[py ''C1|A1|AUI|CHD|C2|A2|AUI||R1||SRC|SRC|||N||'' @ [10],
             py ''C2|A2|AUI|PAR|C1|A1|AUI||R2||SRC|SRC|||N||'' @ [10]]"
  have recs: "records_of ?L = [(py ''C1'', py ''CHD'', py ''C2''), (py ''C2'', py ''PAR'', py ''C1'')]"
    by (simp add: records_of_Cons records_of_Nil fields_C1_CHD_C2 fields_C2_PAR_C1)
  have two: "assertions (records_of ?L) (py ''C2'', py ''C1'') = 2"
    using C1_neq_C2(1)
    by (simp add: recs assertions_def spec_asserts_def spec_hierarchy_edge_def codes_distinct)
  have pc: "parent_child_edges (foldl classify empty_parsed (records_of ?L)) = {(py ''C2'', py ''C1'')}"
    using C1_neq_C2(1)
    by (simp add: recs classify_parent_child spec_hierarchy_edge_def codes_distinct empty_parsed_def)
  have bt: "broader_than_edges (foldl classify empty_parsed (records_of ?L)) = {}"
    using C1_neq_C2(1)
    by (simp add: recs classify_broader_than spec_dominance_edge_def codes_distinct empty_parsed_def)
  from duplicate_counter_keys_and_counts [of ?L] obtain p where
    p: "parse_mrrel (File ?L) = Inr p"
    and d: "dom (duplicate_edges p) = parent_child_edges p \<union> broader_than_edges p"
    and c: "\<forall>e. duplicate_edges p e =
        (if assertions (records_of ?L) e = 0 then None else Some (assertions (records_of ?L) e))"
    by blast
  from p have eq: "p = foldl classify empty_parsed (records_of ?L)"
    by (simp add: parse_mrrel_File)
  have "duplicate_edges p (py ''C2'', py ''C1'') = Some 2"
    using c two by simp
  moreover have "parent_child_edges p = {(py ''C2'', py ''C1'')}"
    using pc eq by simp
  moreover have "dom (duplicate_edges p) = {(py ''C2'', py ''C1'')}"
    using d pc bt eq by simp
  ultimately show ?thesis
    using p by simp
qed




text \<open>
  Claim C9. The two edge sets are not disjoint as sets of pairs and the counter has one key
  per pair: a file that asserts \<open>(a, b)\<close> once under \<open>PAR\<close> and once under \<open>RB\<close> has
  \<open>(a, b)\<close> in both edge sets and the single counter key \<open>(a, b)\<close> with count 2.
\<close>

theorem counter_conflates_families:
  assumes "a \<noteq> b"
    and "line_fields l1 = Some (a, py ''PAR'', b)" and "line_fields l2 = Some (a, py ''RB'', b)"
  shows "\<exists>p. parse_mrrel (File [l1, l2]) = Inr p \<and>
           parent_child_edges p = {(a, b)} \<and> broader_than_edges p = {(a, b)} \<and>
           parent_child_edges p \<inter> broader_than_edges p = {(a, b)} \<and>
           dom (duplicate_edges p) = {(a, b)} \<and> duplicate_edges p (a, b) = Some 2"
proof -
  define p where "p = foldl classify empty_parsed [(a, py ''PAR'', b), (a, py ''RB'', b)]"
  have recs: "records_of [l1, l2] = [(a, py ''PAR'', b), (a, py ''RB'', b)]"
    using assms by (simp add: records_of_Cons records_of_Nil)
  have pc: "parent_child_edges p = {(a, b)}"
    using assms(1)
    by (simp add: p_def classify_parent_child spec_hierarchy_edge_def codes_distinct empty_parsed_def)
  have bt: "broader_than_edges p = {(a, b)}"
    using assms(1)
    by (simp add: p_def classify_broader_than spec_dominance_edge_def codes_distinct empty_parsed_def)
  have cnt: "duplicate_edges p = [(a, b) \<mapsto> 2]"
    using assms(1)
    by (simp add: p_def classify_def Let_def increment_def codes_distinct empty_parsed_def)
  have "parse_mrrel (File [l1, l2]) = Inr p"
    by (simp add: parse_mrrel_File recs p_def)
  then show ?thesis
    using pc bt cnt by simp
qed

lemma fields_A_PAR_B:
  "line_fields (py ''A|A1|AUI|PAR|B|A2|AUI||R1||SRC|SRC|||N||'' @ [10]) = Some (py ''A'', py ''PAR'', py ''B'')"
  by (simp add: line_fields_def py_def strip_def isspace_def bar_def)

lemma fields_A_RB_B:
  "line_fields (py ''A|A1|AUI|RB|B|A2|AUI||R2||SRC|SRC|||N||'' @ [10]) = Some (py ''A'', py ''RB'', py ''B'')"
  by (simp add: line_fields_def py_def strip_def isspace_def bar_def)

lemma A_neq_B: "py ''A'' \<noteq> py ''B''"
  by (simp add: py_def)

theorem counter_conflates_families_witness:
  "\<exists>p. parse_mrrel (File [py ''A|A1|AUI|PAR|B|A2|AUI||R1||SRC|SRC|||N||'' @ [10],
                          py ''A|A1|AUI|RB|B|A2|AUI||R2||SRC|SRC|||N||'' @ [10]]) = Inr p \<and>
     parent_child_edges p = {(py ''A'', py ''B'')} \<and>
     broader_than_edges p = {(py ''A'', py ''B'')} \<and>
     parent_child_edges p \<inter> broader_than_edges p = {(py ''A'', py ''B'')} \<and>
     dom (duplicate_edges p) = {(py ''A'', py ''B'')} \<and>
     duplicate_edges p (py ''A'', py ''B'') = Some 2"
  by (rule counter_conflates_families [OF A_neq_B fields_A_PAR_B fields_A_RB_B])

lemma blank_no_bar: "blank a \<Longrightarrow> bar \<notin> set a"
  using bar_not_space by (auto simp add: blank_def list_all_iff)

lemma padded_no_bar: "padded g f \<Longrightarrow> bar \<notin> set f \<Longrightarrow> bar \<notin> set g"
  by (auto simp add: padded_def dest: blank_no_bar)

lemma line_fields_pad: "blank u \<Longrightarrow> blank v \<Longrightarrow> line_fields (u @ l @ v) = line_fields l"
  by (simp add: line_fields_def strip_pad)

text \<open>
  Claim C10. Whitespace around the line and around its source, relation and target fields
  is removed before classification. A line written from the fields \<open>gs\<close>, each a field of
  \<open>fs\<close> with whitespace around it, itself with whitespace \<open>u\<close> and \<open>v\<close> around it, has
  the stripped fields of \<open>fs\<close> and is processed as the line written from \<open>fs\<close>; when
  the stripped source equals the stripped target it is recorded as a self-loop.
\<close>

theorem whitespace_stripped_before_classification:
  assumes "5 \<le> length fs" and "\<forall>f \<in> set fs. bar \<notin> set f" and "list_all2 padded gs fs"
    and "blank u" and "blank v"
  shows "line_fields (u @ join_str bar gs @ v) = Some (strip (fs ! 0), strip (fs ! 3), strip (fs ! 4)) \<and>
         line_fields (join_str bar fs) = Some (strip (fs ! 0), strip (fs ! 3), strip (fs ! 4)) \<and>
         parse_line st (u @ join_str bar gs @ v) = parse_line st (join_str bar fs) \<and>
         (strip (fs ! 0) = strip (fs ! 4) \<longrightarrow>
            parse_line st (u @ join_str bar gs @ v) =
              st\<lparr>relationship_types := insert (strip (fs ! 3)) (relationship_types st),
                 self_loops := insert (strip (fs ! 0), strip (fs ! 3)) (self_loops st)\<rparr>)"
proof -
  have len: "length gs = length fs"
    using assms(3) by (rule list_all2_lengthD)
  have nth: "strip (gs ! i) = strip (fs ! i)" if "i < length fs" for i
    using assms(3) that by (simp add: list_all2_conv_all_nth strip_padded)
  have nobar: "\<forall>g \<in> set gs. bar \<notin> set g"
  proof
    fix g assume "g \<in> set gs"
    then obtain i where i: "i < length gs" "g = gs ! i" by (auto simp add: in_set_conv_nth)
    with assms(3) have "padded g (fs ! i)" by (simp add: list_all2_conv_all_nth)
    moreover have "bar \<notin> set (fs ! i)" using assms(2) i len by simp
    ultimately show "bar \<notin> set g" by (rule padded_no_bar)
  qed
  from assms(1) have "0 < length fs" "3 < length fs" "4 < length fs" by linarith+
  then have eqs: "strip (gs ! 0) = strip (fs ! 0)" "strip (gs ! 3) = strip (fs ! 3)"
    "strip (gs ! 4) = strip (fs ! 4)"
    by (simp_all only: nth)
  have f: "line_fields (join_str bar fs) = Some (strip (fs ! 0), strip (fs ! 3), strip (fs ! 4))"
    using assms(1,2) by (rule line_fields_join)
  have "line_fields (join_str bar gs) = Some (strip (gs ! 0), strip (gs ! 3), strip (gs ! 4))"
    using assms(1) nobar by (simp add: line_fields_join len)
  then have g: "line_fields (u @ join_str bar gs @ v) =
      Some (strip (fs ! 0), strip (fs ! 3), strip (fs ! 4))"
    using assms(4,5) by (simp add: line_fields_pad eqs)
  show ?thesis
    using f g by (simp add: parse_line_def classify_self_loop)
qed

lemma padded_refl: "padded f f"
  unfolding padded_def blank_def by (rule exI [of _ "[]"], rule exI [of _ "[]"]) simp

lemma paddedI: "blank a \<Longrightarrow> blank b \<Longrightarrow> padded (a @ f @ b) f"
  by (auto simp add: padded_def)

theorem whitespace_stripped_before_classification_witness:
  "line_fields (py '' C7 |A1|AUI| PAR |C7 |'' @ [10]) = Some (py ''C7'', py ''PAR'', py ''C7'') \<and>
   parse_line empty_parsed (py '' C7 |A1|AUI| PAR |C7 |'' @ [10]) =
     parse_line empty_parsed (py ''C7|A1|AUI|PAR|C7|'') \<and>
   self_loops (parse_line empty_parsed (py '' C7 |A1|AUI| PAR |C7 |'' @ [10])) = {(py ''C7'', py ''PAR'')}"
proof -
  let ?fs = "[py ''C7'', py ''A1'', py ''AUI'', py ''PAR'', py ''C7'', []]"
  let ?gs = "[py '' C7 '', py ''A1'', py ''AUI'', py '' PAR '', py ''C7 '', []]"
  have sp: "blank (py '' '')" "blank []" "blank [10]"
    by (simp_all add: blank_def py_def isspace_def)
  have "padded ([] @ py ''C7'' @ py '' '') (py ''C7'')"
       "padded (py '' '' @ py ''C7'' @ py '' '') (py ''C7'')"
       "padded (py '' '' @ py ''PAR'' @ py '' '') (py ''PAR'')"
    by (rule paddedI; simp add: sp)+
  then have pad: "list_all2 padded ?gs ?fs"
    by (simp add: padded_refl py_def)
  have nobar: "\<forall>f \<in> set ?fs. bar \<notin> set f"
    by (simp add: py_def bar_def)
  have st: "strip (py ''C7'') = py ''C7''" "strip (py ''PAR'') = py ''PAR''"
    by (simp_all add: strip_def py_def isspace_def)
  have j1: "[] @ join_str bar ?gs @ [10] = py '' C7 |A1|AUI| PAR |C7 |'' @ [10]"
    by (simp add: py_def bar_def)
  have j2: "join_str bar ?fs = py ''C7|A1|AUI|PAR|C7|''"
    by (simp add: py_def bar_def)
  have n: "?fs ! 0 = py ''C7''" "?fs ! 3 = py ''PAR''" "?fs ! 4 = py ''C7''"
    by simp_all
  have "5 \<le> length ?fs" by simp
  from whitespace_stripped_before_classification [OF this nobar pad sp(2) sp(3), of empty_parsed]
  have a: "line_fields (py '' C7 |A1|AUI| PAR |C7 |'' @ [10]) = Some (py ''C7'', py ''PAR'', py ''C7'')"
    and c: "parse_line empty_parsed (py '' C7 |A1|AUI| PAR |C7 |'' @ [10]) =
              parse_line empty_parsed (py ''C7|A1|AUI|PAR|C7|'')"
    and e: "parse_line empty_parsed (py '' C7 |A1|AUI| PAR |C7 |'' @ [10]) =
              empty_parsed\<lparr>relationship_types := insert (py ''PAR'') (relationship_types empty_parsed),
                 self_loops := insert (py ''C7'', py ''PAR'') (self_loops empty_parsed)\<rparr>"
    unfolding j1 j2 n st by blast+
  have "self_loops (parse_line empty_parsed (py '' C7 |A1|AUI| PAR |C7 |'' @ [10])) =
          {(py ''C7'', py ''PAR'')}"
    unfolding e by (simp add: empty_parsed_def)
  with a c show ?thesis by blast
qed

section \<open>Properties of the cycle detector\<close>


lemma cluster_refl: "u \<in> cluster g u"
  by (simp add: cluster_def)








declare dfs.simps [simp del]















lemmas eval_defs = detect_cycles_def build_graph_def append_item_def init_state_def
  getitem_def enter_def Let_def dfs.simps











section \<open>Properties of the violation detector\<close>

lemma violations_from_result:
  assumes "\<forall>dst \<in> set ds. src \<in> set (dict_get D dst []) \<longrightarrow>
             (\<exists>p q. sp g src dst = Inr p \<and> sp g dst src = Inr q)"
  shows "violations_from sp g D src ds acc =
           Inr (acc @ map (mk_violation sp g src) (filter (\<lambda>dst. src \<in> set (dict_get D dst [])) ds))"
  using assms
proof (induction ds arbitrary: acc)
  case Nil
  then show ?case by simp
next
  case (Cons dst rest)
  show ?case
  proof (cases "src \<in> set (dict_get D dst [])")
    case True
    with Cons.prems obtain p q where pq: "sp g src dst = Inr p" "sp g dst src = Inr q"
      by auto
    have "violations_from sp g D src rest (acc @ [\<lparr>source = src, target = dst, cycle = p @ drop 1 q\<rparr>]) =
            Inr ((acc @ [\<lparr>source = src, target = dst, cycle = p @ drop 1 q\<rparr>]) @
               map (mk_violation sp g src) (filter (\<lambda>dst. src \<in> set (dict_get D dst [])) rest))"
      using Cons.prems by (intro Cons.IH) simp
    then show ?thesis
      using True pq by (simp add: mk_violation_def the_path_def)
  next
    case False
    have "violations_from sp g D src rest acc =
            Inr (acc @ map (mk_violation sp g src) (filter (\<lambda>dst. src \<in> set (dict_get D dst [])) rest))"
      using Cons.prems by (intro Cons.IH) simp
    then show ?thesis
      using False by simp
  qed
qed

lemma violations_loop_result:
  assumes "\<forall>src \<in> set srcs. \<exists>ds. map_of D src = Some ds \<and>
             (\<forall>dst \<in> set ds. src \<in> set (dict_get D dst []) \<longrightarrow>
                (\<exists>p q. sp g src dst = Inr p \<and> sp g dst src = Inr q))"
  shows "violations_loop sp g D srcs acc =
           Inr (acc @ concat (map (\<lambda>src. map (mk_violation sp g src)
                  (filter (\<lambda>dst. src \<in> set (dict_get D dst [])) (dict_get D src []))) srcs))"
  using assms
proof (induction srcs arbitrary: acc)
  case Nil
  then show ?case by simp
next
  case (Cons src rest)
  from Cons.prems obtain ds where ds: "map_of D src = Some ds"
    and ok: "\<forall>dst \<in> set ds. src \<in> set (dict_get D dst []) \<longrightarrow>
                (\<exists>p q. sp g src dst = Inr p \<and> sp g dst src = Inr q)"
    by auto
  have 1: "violations_from sp g D src ds acc =
           Inr (acc @ map (mk_violation sp g src) (filter (\<lambda>dst. src \<in> set (dict_get D dst [])) ds))"
    using ok by (rule violations_from_result)
  have 2: "dict_get D src [] = ds" using ds by (simp add: dict_get_def)
  show ?case
    using Cons.prems by (simp add: ds 1 2 Cons.IH)
qed

lemma map_of_map_keyed:
  "map_of (map (\<lambda>(k, v). (k, h k v)) g) w = map_option (h w) (map_of g w)"
  by (induction g) auto

lemma getitem_add_node: "getitem (add_node g u) w = getitem g w"
proof (cases "u \<in> fst ` set g")
  case True
  then show ?thesis by (simp add: add_node_def)
next
  case False
  then have "map_of g u = None" by (simp add: map_of_eq_None_iff)
  then show ?thesis
    using False by (cases "map_of g w") (auto simp add: getitem_def add_node_def map_add_def)
qed

lemma keys_add_node: "fst ` set (add_node g u) = insert u (fst ` set g)"
  by (auto simp add: add_node_def)

lemma distinct_add_node: "distinct (map fst g) \<Longrightarrow> distinct (map fst (add_node g u))"
  by (auto simp add: add_node_def)

lemma map_fst_add_edge: "map fst (add_edge g u v) = map fst (add_node (add_node g u) v)"
  by (simp add: add_edge_def case_prod_beta comp_def)

lemma distinct_add_edge: "distinct (map fst g) \<Longrightarrow> distinct (map fst (add_edge g u v))"
  by (simp add: map_fst_add_edge distinct_add_node)

lemma getitem_add_edge:
  "getitem (add_edge g u v) w =
     (if w = u then (if v \<in> set (getitem g u) then getitem g u else getitem g u @ [v])
      else getitem g w)"
proof -
  let ?g = "add_node (add_node g u) v"
  have "u \<in> fst ` set ?g" by (simp add: keys_add_node)
  then obtain vs where vs: "map_of ?g u = Some vs"
    by (metis map_of_eq_None_iff not_None_eq)
  then have gu: "getitem g u = vs"
    using getitem_add_node [of "add_node g u" v u] getitem_add_node [of g u u]
    by (simp add: getitem_def)
  have gw: "getitem ?g w = getitem g w"
    by (simp add: getitem_add_node)
  show ?thesis
  proof (cases "w = u")
    case True
    then show ?thesis
      using vs gu by (simp add: getitem_def add_edge_def map_of_map_keyed)
  next
    case False
    then show ?thesis
      using gw by (auto simp add: getitem_def add_edge_def map_of_map_keyed split: option.splits)
  qed
qed

lemma edges_add_edge: "edges (add_edge g u v) = insert (u, v) (edges g)"
  by (auto simp add: edges_def getitem_add_edge split: if_splits)

lemma foldl_add_edge:
  "edges (foldl (\<lambda>g (u, v). add_edge g u v) g es) = edges g \<union> set es \<and>
   (distinct (map fst g) \<longrightarrow> distinct (map fst (foldl (\<lambda>g (u, v). add_edge g u v) g es)))"
  by (induction es arbitrary: g) (auto simp add: edges_add_edge distinct_add_edge)

lemma edges_add_edges_from: "edges (add_edges_from es) = set es"
proof -
  have "edges ([] :: 'a graph) = {}" by (simp add: edges_def getitem_def)
  then show ?thesis
    using foldl_add_edge [of "[]" es] by (simp add: add_edges_from_def)
qed

lemma distinct_add_edges_from: "distinct (map fst (add_edges_from es))"
  using foldl_add_edge [of "[]" es] by (simp add: add_edges_from_def)

lemma distinct_pairs:
  "distinct xs \<Longrightarrow> \<forall>x \<in> set xs. distinct (f x) \<Longrightarrow>
     distinct (concat (map (\<lambda>x. map (Pair x) (f x)) xs))"
  by (induction xs) (auto simp add: distinct_map inj_on_def)

lemma reach_has_key:
  assumes "(u, v) \<in> (edges g)\<^sup>+"
  shows "u \<in> set (map fst g)"
proof -
  from assms obtain w where "(u, w) \<in> edges g" by (auto dest: tranclD)
  then have "getitem g u \<noteq> []" by (auto simp add: edges_def)
  then obtain ns where "map_of g u = Some ns"
    by (auto simp add: getitem_def split: option.splits)
  then have "(u, ns) \<in> set g" by (rule map_of_SomeD)
  then show ?thesis by force
qed

lemma violations_general:
  assumes dk: "distinct (map fst g)"
    and dc: "descendants_contract desc g" and sc: "shortest_path_contract sp g"
  shows "\<exists>vs. detect_broader_violations desc sp g = Inr vs \<and>
     distinct (map (\<lambda>v. (source v, target v)) vs) \<and>
     set (map (\<lambda>v. (source v, target v)) vs) = mutual g \<and>
     (\<forall>v \<in> set vs. \<exists>p q. is_shortest_path g (source v) (target v) p \<and>
         is_shortest_path g (target v) (source v) q \<and> cycle v = p @ drop 1 q)"
proof -
  let ?N = "map fst g"
  define D where "D = map (\<lambda>node. (node, desc g node)) ?N"
  let ?D = "D"
  let ?P = "\<lambda>src dst. src \<in> set (dict_get ?D dst [])"
  let ?vs = "concat (map (\<lambda>src. map (mk_violation sp g src) (filter (?P src) (dict_get ?D src []))) ?N)"
  have mo0: "map_of ?D = (Some \<circ> desc g) |` set ?N"
    unfolding D_def by (rule map_of_map_restrict)
  have mo: "map_of ?D k = (if k \<in> set ?N then Some (desc g k) else None)" for k
    unfolding mo0 by (simp add: restrict_map_def)
  have dg: "dict_get ?D k [] = (if k \<in> set ?N then desc g k else [])" for k
    by (simp add: dict_get_def mo)
  have dset: "set (desc g u) = {v. v \<noteq> u \<and> (u, v) \<in> (edges g)\<^sup>+}" and dd: "distinct (desc g u)"
    if "u \<in> set ?N" for u
    using dc that unfolding descendants_contract_def by blast+
  have P_iff: "(src \<in> set ?N \<and> dst \<in> set (desc g src) \<and> ?P src dst) \<longleftrightarrow> (src, dst) \<in> mutual g"
    for src dst
  proof
    assume a: "src \<in> set ?N \<and> dst \<in> set (desc g src) \<and> ?P src dst"
    then have 1: "dst \<noteq> src" "(src, dst) \<in> (edges g)\<^sup>+" using dset [of src] by auto
    from a have "dst \<in> set ?N" by (auto simp add: dg split: if_splits)
    with a have "(dst, src) \<in> (edges g)\<^sup>+" using dset [of dst] by (auto simp add: dg)
    with 1 show "(src, dst) \<in> mutual g" by (auto simp add: mutual_def)
  next
    assume m: "(src, dst) \<in> mutual g"
    then have 1: "src \<noteq> dst" "(src, dst) \<in> (edges g)\<^sup>+" "(dst, src) \<in> (edges g)\<^sup>+"
      by (auto simp add: mutual_def)
    then have k: "src \<in> set ?N" "dst \<in> set ?N" by (auto dest: reach_has_key)
    with 1 show "src \<in> set ?N \<and> dst \<in> set (desc g src) \<and> ?P src dst"
      using dset [of src] dset [of dst] by (auto simp add: dg)
  qed
  have sp_ok: "\<exists>p. sp g u v = Inr p \<and> is_shortest_path g u v p" if "(u, v) \<in> mutual g" for u v
    using sc that unfolding shortest_path_contract_def by blast
  have sym: "(v, u) \<in> mutual g" if "(u, v) \<in> mutual g" for u v
    using that by (auto simp add: mutual_def)
  have pre: "\<forall>src \<in> set ?N. \<exists>ds. map_of ?D src = Some ds \<and>
             (\<forall>dst \<in> set ds. ?P src dst \<longrightarrow> (\<exists>p q. sp g src dst = Inr p \<and> sp g dst src = Inr q))"
  proof
    fix src assume s: "src \<in> set ?N"
    have "\<exists>p q. sp g src dst = Inr p \<and> sp g dst src = Inr q"
      if "dst \<in> set (desc g src)" "?P src dst" for dst
    proof -
      from s that have m: "(src, dst) \<in> mutual g" using P_iff [of src dst] by blast
      from sp_ok [OF m] sp_ok [OF sym [OF m]] show ?thesis by blast
    qed
    then show "\<exists>ds. map_of ?D src = Some ds \<and>
             (\<forall>dst \<in> set ds. ?P src dst \<longrightarrow> (\<exists>p q. sp g src dst = Inr p \<and> sp g dst src = Inr q))"
      using s by (simp add: mo)
  qed
  have run: "detect_broader_violations desc sp g = Inr ?vs"
    using violations_loop_result [of "map fst g" D sp g "[]"] pre
    by (simp add: detect_broader_violations_def Let_def D_def)
  have pairs: "map (\<lambda>v. (source v, target v)) ?vs =
      concat (map (\<lambda>src. map (Pair src) (filter (?P src) (dict_get ?D src []))) ?N)"
    by (simp add: map_concat comp_def mk_violation_def)
  have "distinct (concat (map (\<lambda>src. map (Pair src) (filter (?P src) (dict_get ?D src []))) ?N))"
    using dk by (intro distinct_pairs) (auto simp add: dg dd)
  then have 1: "distinct (map (\<lambda>v. (source v, target v)) ?vs)"
    by (simp only: pairs)
  have "set (concat (map (\<lambda>src. map (Pair src) (filter (?P src) (dict_get ?D src []))) ?N)) =
      {(src, dst). src \<in> set ?N \<and> dst \<in> set (desc g src) \<and> ?P src dst}"
    by (auto simp add: dg)
  also have "\<dots> = mutual g"
    using P_iff by auto
  finally have 2: "set (map (\<lambda>v. (source v, target v)) ?vs) = mutual g"
    by (simp only: pairs)
  have 3: "\<exists>p q. is_shortest_path g (source v) (target v) p \<and>
         is_shortest_path g (target v) (source v) q \<and> cycle v = p @ drop 1 q"
    if "v \<in> set ?vs" for v
  proof -
    from that obtain src dst where v: "v = mk_violation sp g src dst"
      and a: "src \<in> set ?N" "dst \<in> set (desc g src)" "?P src dst"
      by (auto simp add: dg)
    from a have m: "(src, dst) \<in> mutual g" using P_iff [of src dst] by blast
    from sp_ok [OF m] sp_ok [OF sym [OF m]] obtain p q where
      "sp g src dst = Inr p" "is_shortest_path g src dst p"
      "sp g dst src = Inr q" "is_shortest_path g dst src q"
      by blast
    then show ?thesis
      by (auto simp add: v mk_violation_def the_path_def)
  qed
  from run 1 2 3 show ?thesis by blast
qed

text \<open>
  Claim C1. Let the graph be built from a list of dominance edges, in any order, and let
  the two library functions keep their contract on it. Then
  \<open>detect_broader_violations\<close> returns a list of violations whose pairs of source and
  target are pairwise different and are exactly the ordered pairs of distinct nodes that
  reach each other (so each such pair is there in both directions, and a graph without
  such a pair, as a strict chain, gives the empty list); and the cycle of each violation
  is a shortest path from the source to the target followed by a shortest path from the
  target to the source without its first node.
\<close>

theorem one_violation_per_mutual_pair:
  assumes "descendants_contract nx_descendants (add_edges_from es)"
    and "shortest_path_contract shortest_path (add_edges_from es)"
  shows "\<exists>vs. detect_broader_violations nx_descendants shortest_path (add_edges_from es) = Inr vs \<and>
     distinct (map (\<lambda>v. (source v, target v)) vs) \<and>
     set (map (\<lambda>v. (source v, target v)) vs) =
       {(u, v). u \<noteq> v \<and> (u, v) \<in> (set es)\<^sup>+ \<and> (v, u) \<in> (set es)\<^sup>+} \<and>
     (\<forall>v \<in> set vs. \<exists>p q.
         is_shortest_path (add_edges_from es) (source v) (target v) p \<and>
         is_shortest_path (add_edges_from es) (target v) (source v) q \<and>
         cycle v = p @ drop 1 q)"
proof -
  have "mutual (add_edges_from es) =
      {(u, v). u \<noteq> v \<and> (u, v) \<in> (set es)\<^sup>+ \<and> (v, u) \<in> (set es)\<^sup>+}"
    by (simp add: mutual_def edges_add_edges_from)
  then show ?thesis
    using violations_general [OF distinct_add_edges_from assms] by simp
qed

lemma AB_graph: "add_edges_from [(py ''A'', py ''B''), (py ''B'', py ''A'')] =
    [(py ''A'', [py ''B'']), (py ''B'', [py ''A''])]"
  using A_neq_B by (simp add: add_edges_from_def add_edge_def add_node_def)

lemma AB_reach:
  "(u, v) \<in> ({(py ''A'', py ''B''), (py ''B'', py ''A'')})\<^sup>+ \<longleftrightarrow>
     u \<in> {py ''A'', py ''B''} \<and> v \<in> {py ''A'', py ''B''}"
proof
  let ?r = "{(py ''A'', py ''B''), (py ''B'', py ''A'')}"
  assume "(u, v) \<in> ?r\<^sup>+"
  moreover have "?r \<subseteq> {py ''A'', py ''B''} \<times> {py ''A'', py ''B''}" by auto
  ultimately have "(u, v) \<in> {py ''A'', py ''B''} \<times> {py ''A'', py ''B''}"
    using trancl_subset_Sigma by blast
  then show "u \<in> {py ''A'', py ''B''} \<and> v \<in> {py ''A'', py ''B''}" by blast
next
  let ?r = "{(py ''A'', py ''B''), (py ''B'', py ''A'')}"
  assume a: "u \<in> {py ''A'', py ''B''} \<and> v \<in> {py ''A'', py ''B''}"
  have ab: "(py ''A'', py ''B'') \<in> ?r\<^sup>+" and ba: "(py ''B'', py ''A'') \<in> ?r\<^sup>+"
    by auto
  from ab ba have "(py ''A'', py ''A'') \<in> ?r\<^sup>+" by (rule trancl_trans)
  moreover from ba ab have "(py ''B'', py ''B'') \<in> ?r\<^sup>+" by (rule trancl_trans)
  ultimately show "(u, v) \<in> ?r\<^sup>+" using a ab ba by auto
qed

lemma AB_descendants:
  "descendants_contract two_node_descendants (add_edges_from [(py ''A'', py ''B''), (py ''B'', py ''A'')])"
  unfolding descendants_contract_def edges_add_edges_from
  using A_neq_B by (auto simp add: AB_graph AB_reach two_node_descendants_def)

lemma AB_shortest:
  "shortest_path_contract direct_path (add_edges_from [(py ''A'', py ''B''), (py ''B'', py ''A'')])"
  unfolding shortest_path_contract_def
proof (intro allI impI)
  let ?g = "add_edges_from [(py ''A'', py ''B''), (py ''B'', py ''A'')]"
  fix u v assume "(u, v) \<in> mutual ?g"
  then have uv: "u \<noteq> v" "u \<in> {py ''A'', py ''B''}" "v \<in> {py ''A'', py ''B''}"
    by (auto simp add: mutual_def edges_add_edges_from AB_reach)
  then have e: "(u, v) \<in> edges ?g"
    by (auto simp add: edges_add_edges_from)
  have L: "length [u, v] \<le> length q" if "is_path ?g u v q" for q
  proof -
    from that uv(1) have "q \<noteq> []" "hd q \<noteq> last q" by (auto simp add: is_path_def)
    then show ?thesis by (cases q rule: list.exhaust; cases "tl q") auto
  qed
  have "is_path ?g u v [u, v]"
    using e by (simp add: is_path_def)
  with L have "is_shortest_path ?g u v [u, v]"
    unfolding is_shortest_path_def by blast
  then show "\<exists>p. direct_path ?g u v = Inr p \<and> is_shortest_path ?g u v p"
    by (simp add: direct_path_def)
qed

theorem one_violation_per_mutual_pair_witness:
  "descendants_contract two_node_descendants (add_edges_from [(py ''A'', py ''B''), (py ''B'', py ''A'')]) \<and>
   shortest_path_contract direct_path (add_edges_from [(py ''A'', py ''B''), (py ''B'', py ''A'')]) \<and>
   detect_broader_violations two_node_descendants direct_path
       (add_edges_from [(py ''A'', py ''B''), (py ''B'', py ''A'')]) =
     Inr [\<lparr>source = py ''A'', target = py ''B'', cycle = [py ''A'', py ''B'', py ''A'']\<rparr>,
          \<lparr>source = py ''B'', target = py ''A'', cycle = [py ''B'', py ''A'', py ''B'']\<rparr>] \<and>
   (\<exists>vs. detect_broader_violations two_node_descendants direct_path
       (add_edges_from [(py ''A'', py ''B''), (py ''B'', py ''A'')]) = Inr vs \<and>
      set (map (\<lambda>v. (source v, target v)) vs) = {(py ''A'', py ''B''), (py ''B'', py ''A'')})"
proof -
  have run: "detect_broader_violations two_node_descendants direct_path
       (add_edges_from [(py ''A'', py ''B''), (py ''B'', py ''A'')]) =
     Inr [\<lparr>source = py ''A'', target = py ''B'', cycle = [py ''A'', py ''B'', py ''A'']\<rparr>,
          \<lparr>source = py ''B'', target = py ''A'', cycle = [py ''B'', py ''A'', py ''B'']\<rparr>]"
    using A_neq_B
    by (simp add: AB_graph detect_broader_violations_def two_node_descendants_def direct_path_def
        dict_get_def)
  from one_violation_per_mutual_pair [OF AB_descendants AB_shortest] obtain vs where
    vs: "detect_broader_violations two_node_descendants direct_path
       (add_edges_from [(py ''A'', py ''B''), (py ''B'', py ''A'')]) = Inr vs"
    and pairs: "set (map (\<lambda>v. (source v, target v)) vs) =
       {(u, v). u \<noteq> v \<and> (u, v) \<in> (set [(py ''A'', py ''B''), (py ''B'', py ''A'')])\<^sup>+ \<and>
                (v, u) \<in> (set [(py ''A'', py ''B''), (py ''B'', py ''A'')])\<^sup>+}"
    by blast
  have "{(u, v). u \<noteq> v \<and> (u, v) \<in> (set [(py ''A'', py ''B''), (py ''B'', py ''A'')])\<^sup>+ \<and>
                (v, u) \<in> (set [(py ''A'', py ''B''), (py ''B'', py ''A'')])\<^sup>+} =
        {(py ''A'', py ''B''), (py ''B'', py ''A'')}"
    using A_neq_B by (auto simp add: AB_reach)
  with pairs have "set (map (\<lambda>v. (source v, target v)) vs) = {(py ''A'', py ''B''), (py ''B'', py ''A'')}"
    by simp
  with vs run AB_descendants AB_shortest show ?thesis by blast
qed

section \<open>Properties of the statistics\<close>

lemma map_of_setitem:
  "map_of (setitem d k v) k' = (if k' = k then Some v else map_of d k')"
proof (cases "k \<in> fst ` set d")
  case True
  then obtain v0 where "map_of d k = Some v0"
    by (metis map_of_eq_None_iff not_None_eq)
  then show ?thesis
    using True map_of_map_keyed [of "\<lambda>k' v'. if k' = k then v else v'" d k']
    by (auto simp add: setitem_def option.map_ident)
next
  case False
  then have "map_of d k = None" by (simp add: map_of_eq_None_iff)
  then show ?thesis
    using False by (cases "map_of d k'") (auto simp add: setitem_def map_add_def)
qed

lemma set_map_filter_conv: "set (List.map_filter f xs) = {y. \<exists>x \<in> set xs. f x = Some y}"
  by (induction xs) (auto simp add: List.map_filter_simps split: option.splits)

lemma parent_child_edges_assertions:
  "parent_child_edges (foldl classify empty_parsed (records_of lines)) = set (hierarchy_assertions lines)"
  by (auto simp add: foldl_classify_parent_child empty_parsed_def hierarchy_assertions_def
      set_map_filter_conv)

lemma hierarchy_records_split:
  "length (filter (\<lambda>rec. fst (snd rec) = py ''CHD'' \<or> fst (snd rec) = py ''PAR'') recs) =
     length (List.map_filter spec_hierarchy_edge recs) +
     length (filter (\<lambda>rec. fst rec = snd (snd rec))
        (filter (\<lambda>rec. fst (snd rec) = py ''CHD'' \<or> fst (snd rec) = py ''PAR'') recs))"
  by (induction recs) (auto simp add: List.map_filter_simps spec_hierarchy_edge_def split: prod.splits)

text \<open>
  Claim C8. Whenever \<^verbatim>\<open>main\<close> hands its results to the report sink, the statistic
  \<^verbatim>\<open>Total Parent-Child Relationships\<close> is the number of elements of the hierarchy edge
  set of \<open>parse_mrrel\<close>. That number is at most the number of hierarchy records read,
  and smaller as soon as two hierarchy records assert the same edge or a hierarchy record
  is a self-loop.
\<close>

theorem parent_child_statistic_counts_edges:
  assumes "main iteration_order nx_descendants shortest_path pc_time bt_time total_time
             (File lines) analysis = Inr rep"
  shows "\<exists>p. parse_mrrel (File lines) = Inr p \<and>
     map_of (report_stats rep) ''Total Parent-Child Relationships'' =
       Some (Count (int (card (parent_child_edges p)))) \<and>
     card (parent_child_edges p) \<le> length (hierarchy_records lines) \<and>
     (\<not> distinct (hierarchy_assertions lines) \<or>
      (\<exists>rec \<in> set (hierarchy_records lines). fst rec = snd (snd rec)) \<longrightarrow>
        card (parent_child_edges p) < length (hierarchy_records lines))"
proof -
  define p where "p = foldl classify empty_parsed (records_of lines)"
  have parse: "parse_mrrel (File lines) = Inr p"
    by (simp add: parse_mrrel_File p_def)
  have init: "map_of (initial_stats p :: (string \<times> 'a stat) list) ''Total Parent-Child Relationships'' =
      Some (Count (int (card (parent_child_edges p))))"
    by (simp add: initial_stats_def)
  from assms have "map_of (report_stats rep) ''Total Parent-Child Relationships'' =
      map_of (initial_stats p :: (string \<times> 'a stat) list) ''Total Parent-Child Relationships''"
    by (auto simp add: main_def parse map_of_setitem split: sum.splits if_splits prod.splits)
  with init have stat: "map_of (report_stats rep) ''Total Parent-Child Relationships'' =
       Some (Count (int (card (parent_child_edges p))))"
    by simp
  have pc: "parent_child_edges p = set (hierarchy_assertions lines)"
    by (simp add: p_def parent_child_edges_assertions)
  let ?loops = "filter (\<lambda>rec. fst rec = snd (snd rec)) (hierarchy_records lines)"
  have len: "length (hierarchy_records lines) = length (hierarchy_assertions lines) + length ?loops"
    unfolding hierarchy_records_def hierarchy_assertions_def by (rule hierarchy_records_split)
  have le: "card (parent_child_edges p) \<le> length (hierarchy_assertions lines)"
    unfolding pc by (rule card_length)
  have lt1: "card (parent_child_edges p) < length (hierarchy_assertions lines)"
    if "\<not> distinct (hierarchy_assertions lines)"
    using that le card_distinct [of "hierarchy_assertions lines"] unfolding pc by linarith
  have lt2: "0 < length ?loops" if "\<exists>rec \<in> set (hierarchy_records lines). fst rec = snd (snd rec)"
    using that by (auto simp add: filter_empty_conv)
  have "card (parent_child_edges p) < length (hierarchy_records lines)"
    if "\<not> distinct (hierarchy_assertions lines) \<or>
        (\<exists>rec \<in> set (hierarchy_records lines). fst rec = snd (snd rec))"
    using that lt1 lt2 le len by linarith
  with parse stat le len show ?thesis by auto
qed

theorem parent_child_statistic_counts_edges_witness:
  "\<exists>rep. main one_edge_order two_node_descendants direct_path (0::nat) 0 0
            (File [py ''C1|A1|AUI|CHD|C2|A2|AUI||R1||SRC|SRC|||N||'' @ [10],
                   py ''C2|A2|AUI|PAR|C1|A1|AUI||R2||SRC|SRC|||N||'' @ [10]]) ParentChild = Inr rep \<and>
     map_of (report_stats rep) ''Total Parent-Child Relationships'' = Some (Count 1) \<and>
     length (hierarchy_records [py ''C1|A1|AUI|CHD|C2|A2|AUI||R1||SRC|SRC|||N||'' @ [10],
                                py ''C2|A2|AUI|PAR|C1|A1|AUI||R2||SRC|SRC|||N||'' @ [10]]) = 2"
proof -
  let ?L = "[py ''C1|A1|AUI|CHD|C2|A2|AUI||R1||SRC|SRC|||N||'' @ [10],
             py ''C2|A2|AUI|PAR|C1|A1|AUI||R2||SRC|SRC|||N||'' @ [10]]"
  have recs: "records_of ?L = [(py ''C1'', py ''CHD'', py ''C2''), (py ''C2'', py ''PAR'', py ''C1'')]"
    by (simp add: records_of_Cons records_of_Nil fields_C1_CHD_C2 fields_C2_PAR_C1)
  have pc: "parent_child_edges (foldl classify empty_parsed (records_of ?L)) = {(py ''C2'', py ''C1'')}"
    using C1_neq_C2(1)
    by (simp add: recs classify_parent_child spec_hierarchy_edge_def codes_distinct empty_parsed_def)
  have cyc: "detect_cycles (build_graph [(py ''C2'', py ''C1'')]) = Inr []"
    by (simp add: eval_defs py_def)
  have "\<exists>rep. main one_edge_order two_node_descendants direct_path (0::nat) 0 0 (File ?L) ParentChild = Inr rep"
    by (simp add: main_def parse_mrrel_File pc one_edge_order_def cyc)
  then obtain rep where
    rep: "main one_edge_order two_node_descendants direct_path (0::nat) 0 0 (File ?L) ParentChild = Inr rep"
    by blast
  from parent_child_statistic_counts_edges [OF rep] obtain p where
    p: "parse_mrrel (File ?L) = Inr p"
    and stat: "map_of (report_stats rep) ''Total Parent-Child Relationships'' =
       Some (Count (int (card (parent_child_edges p))))"
    by blast
  from p have "p = foldl classify empty_parsed (records_of ?L)"
    by (simp add: parse_mrrel_File)
  with pc have "card (parent_child_edges p) = 1" by simp
  with stat have "map_of (report_stats rep) ''Total Parent-Child Relationships'' = Some (Count 1)"
    by simp
  moreover have "length (hierarchy_records ?L) = 2"
    by (simp add: hierarchy_records_def recs codes_distinct)
  ultimately show ?thesis using rep by blast
qed

end
